theory Spec2Isabelle
  imports Complex_Main "HOL-Library.Multiset"
begin

section \<open>Slices, indices and run-time panics\<close>

text \<open>
  A Go slice \<open>[]E\<close> is a list; an index is a Go \<open>int\<close>, modelled as an unbounded
  \<open>int\<close>: every index the code forms lies between \<open>-1\<close> and \<open>len(x)\<close>, so no
  machine arithmetic wraps. Reading or writing outside \<open>[0, len(x))\<close> panics in Go; the
  model returns \<open>Inl IndexOutOfRange\<close> there, and \<open>Inl SliceBoundsOutOfRange\<close> for a
  slice expression \<open>x[:m]\<close> whose bound is out of range.
\<close>

datatype error = IndexOutOfRange | SliceBoundsOutOfRange

definition in_range :: "'a list \<Rightarrow> int \<Rightarrow> bool" where
  "in_range x i = (0 \<le> i \<and> i < int (length x))"

text \<open>The read \<open>x[i]\<close>.\<close>

definition index :: "'a list \<Rightarrow> int \<Rightarrow> error + 'a" where
  "index x i = (if in_range x i then Inr (x ! nat i) else Inl IndexOutOfRange)"

text \<open>The parallel assignment \<open>x[i], x[j] = x[j], x[i]\<close>: both operands are read
  before either is written.\<close>

definition swap :: "'a list \<Rightarrow> int \<Rightarrow> int \<Rightarrow> error + 'a list" where
  "swap x i j =
     (if in_range x i \<and> in_range x j
      then Inr (x[nat i := x ! nat j, nat j := x ! nat i])
      else Inl IndexOutOfRange)"

text \<open>The helpers \<open>min\<close> and \<open>max\<close> of \<open>topk.go\<close>, at the type \<open>int\<close> at which the
  code uses them.\<close>

definition min_int :: "int \<Rightarrow> int \<Rightarrow> int" where
  "min_int x y = (if x < y then x else y)"

definition max_int :: "int \<Rightarrow> int \<Rightarrow> int" where
  "max_int x y = (if x > y then x else y)"

section \<open>The selection engine with a callback: \<open>floydRivestFunc\<close>\<close>

text \<open>The inner loop \<open>for i < length && less(x[i], t) { i++ }\<close>.\<close>

function advance_i_Func :: "('a \<Rightarrow> 'a \<Rightarrow> bool) \<Rightarrow> 'a list \<Rightarrow> 'a \<Rightarrow> int \<Rightarrow> error + int" where
  "advance_i_Func lt x t i =
     (if i < int (length x) then
        (case index x i of
           Inl e \<Rightarrow> Inl e
         | Inr xi \<Rightarrow> if lt xi t then advance_i_Func lt x t (i + 1) else Inr i)
      else Inr i)"
  by pat_completeness auto

termination
  by (relation "measure (\<lambda>(lt, x, t, i). nat (int (length x) - i))") auto

declare advance_i_Func.simps [simp del]

text \<open>The inner loop \<open>for j >= 0 && less(t, x[j]) { j-- }\<close>.\<close>

function retreat_j_Func :: "('a \<Rightarrow> 'a \<Rightarrow> bool) \<Rightarrow> 'a list \<Rightarrow> 'a \<Rightarrow> int \<Rightarrow> error + int" where
  "retreat_j_Func lt x t j =
     (if j \<ge> 0 then
        (case index x j of
           Inl e \<Rightarrow> Inl e
         | Inr xj \<Rightarrow> if lt t xj then retreat_j_Func lt x t (j - 1) else Inr j)
      else Inr j)"
  by pat_completeness auto

termination
  by (relation "measure (\<lambda>(lt, x, t, j). nat (j + 1))") auto

declare retreat_j_Func.simps [simp del]

lemma advance_i_Func_ge: "advance_i_Func lt x t i = Inr i' \<Longrightarrow> i \<le> i'"
proof (induction lt x t i rule: advance_i_Func.induct)
  case (1 lt x t i)
  show ?case
  proof (cases "i < int (length x)")
    case False
    with "1.prems" show ?thesis by (subst (asm) advance_i_Func.simps) simp
  next
    case True
    show ?thesis
    proof (cases "index x i")
      case (Inl e)
      with True "1.prems" show ?thesis by (subst (asm) advance_i_Func.simps) simp
    next
      case (Inr xi)
      show ?thesis
      proof (cases "lt xi t")
        case lt: True
        from "1.prems" True Inr lt have "advance_i_Func lt x t (i + 1) = Inr i'"
          by (subst (asm) advance_i_Func.simps) simp
        with "1.IH"[OF True Inr lt] show ?thesis by simp
      next
        case False
        with True Inr "1.prems" show ?thesis by (subst (asm) advance_i_Func.simps) simp
      qed
    qed
  qed
qed

lemma retreat_j_Func_le: "retreat_j_Func lt x t j = Inr j' \<Longrightarrow> j' \<le> j"
proof (induction lt x t j rule: retreat_j_Func.induct)
  case (1 lt x t j)
  show ?case
  proof (cases "j \<ge> 0")
    case False
    with "1.prems" show ?thesis by (subst (asm) retreat_j_Func.simps) simp
  next
    case True
    show ?thesis
    proof (cases "index x j")
      case (Inl e)
      with True "1.prems" show ?thesis by (subst (asm) retreat_j_Func.simps) simp
    next
      case (Inr xj)
      show ?thesis
      proof (cases "lt t xj")
        case lt: True
        from "1.prems" True Inr lt have "retreat_j_Func lt x t (j - 1) = Inr j'"
          by (subst (asm) retreat_j_Func.simps) simp
        with "1.IH"[OF True Inr lt] show ?thesis by simp
      next
        case False
        with True Inr "1.prems" show ?thesis by (subst (asm) retreat_j_Func.simps) simp
      qed
    qed
  qed
qed

text \<open>The partition loop \<open>for i < j { swap; i++; j--; advance i; retreat j }\<close>; it
  returns the slice with the final \<open>i\<close> and \<open>j\<close>.\<close>

function partition_loop_Func ::
  "('a \<Rightarrow> 'a \<Rightarrow> bool) \<Rightarrow> 'a \<Rightarrow> 'a list \<Rightarrow> int \<Rightarrow> int \<Rightarrow> error + ('a list \<times> int \<times> int)" where
  "partition_loop_Func lt t x i j =
     (if i < j then
        (case swap x i j of
           Inl e \<Rightarrow> Inl e
         | Inr x1 \<Rightarrow>
             (case advance_i_Func lt x1 t (i + 1) of
                Inl e \<Rightarrow> Inl e
              | Inr i1 \<Rightarrow>
                  (case retreat_j_Func lt x1 t (j - 1) of
                     Inl e \<Rightarrow> Inl e
                   | Inr j1 \<Rightarrow> partition_loop_Func lt t x1 i1 j1)))
      else Inr (x, i, j))"
  by pat_completeness auto

termination
proof (relation "measure (\<lambda>(lt, t, x, i, j). nat (j - i))", goal_cases)
  case 1
  show ?case by simp
next
  case (2 lt t x i j x1 i1 j1)
  from 2(3) have "i + 1 \<le> i1" by (rule advance_i_Func_ge)
  moreover from 2(4) have "j1 \<le> j - 1" by (rule retreat_j_Func_le)
  ultimately show ?case using 2(1) by simp
qed

declare partition_loop_Func.simps [simp del]

text \<open>One pass of the outer loop's body after the sampling call (lines 110 to 133 of
  \<open>topk.go\<close>): partition \<open>x[left..right]\<close> around \<open>t = x[k]\<close> and return the slice with
  the pivot's final position \<open>j\<close>.\<close>

definition pivot_step_Func ::
  "('a \<Rightarrow> 'a \<Rightarrow> bool) \<Rightarrow> 'a list \<Rightarrow> int \<Rightarrow> int \<Rightarrow> int \<Rightarrow> error + ('a list \<times> int)" where
  "pivot_step_Func lt x left right k =
     (case index x k of Inl e \<Rightarrow> Inl e | Inr t \<Rightarrow>
     (case swap x left k of Inl e \<Rightarrow> Inl e | Inr x1 \<Rightarrow>
     (case index x1 right of Inl e \<Rightarrow> Inl e | Inr xr \<Rightarrow>
     (case (if lt t xr then swap x1 left right else Inr x1) of Inl e \<Rightarrow> Inl e | Inr x2 \<Rightarrow>
     (case partition_loop_Func lt t x2 left right of Inl e \<Rightarrow> Inl e | Inr (x3, i, j) \<Rightarrow>
     (case index x3 left of Inl e \<Rightarrow> Inl e | Inr xl \<Rightarrow>
        (if \<not> (lt xl t \<or> lt t xl)
         then (case swap x3 left j of Inl e \<Rightarrow> Inl e | Inr x4 \<Rightarrow> Inr (x4, j))
         else (case swap x3 (j + 1) right of Inl e \<Rightarrow> Inl e | Inr x4 \<Rightarrow> Inr (x4, j + 1)))))))))"

text \<open>
  The outer loop \<open>for right > left\<close> with its recursive sampling call. The loop is not
  bounded by the code, so the model takes fuel: \<open>None\<close> is "out of fuel", \<open>Some (Inl e)\<close>
  a panic and \<open>Some (Inr x')\<close> the slice at return. Each loop iteration and each
  recursive call spends one unit along its own path, so fuel bounds the depth.

  The bounds of the sample window are computed in \<open>float64\<close> with \<open>math.Log\<close>,
  \<open>math.Exp\<close>, \<open>math.Sqrt\<close> and \<open>math.Floor\<close>. They depend on \<open>left\<close>, \<open>right\<close> and
  \<open>k\<close> only, and are the parameter \<open>samp\<close>: \<open>samp left right k\<close> is the pair
  \<open>(int(math.Floor(kf-i*s/n+sd)), int(math.Floor(kf+(n-i)*s/n+sd)))\<close>. The formulas
  themselves are written out over the reals in \<open>sample_window\<close>.
\<close>

type_synonym sampler = "int \<Rightarrow> int \<Rightarrow> int \<Rightarrow> int \<times> int"

fun floydRivestFunc ::
  "nat \<Rightarrow> sampler \<Rightarrow> 'a list \<Rightarrow> int \<Rightarrow> int \<Rightarrow> int \<Rightarrow> ('a \<Rightarrow> 'a \<Rightarrow> bool) \<Rightarrow> (error + 'a list) option" where
  "floydRivestFunc 0 samp x left right k lt = None"
| "floydRivestFunc (Suc fuel) samp x left right k lt =
     (if right > left then
        (case (if right - left > 600
               then (case samp left right k of
                       (a, b) \<Rightarrow> floydRivestFunc fuel samp x (max_int left a) (min_int right b) k lt)
               else Some (Inr x)) of
           None \<Rightarrow> None
         | Some (Inl e) \<Rightarrow> Some (Inl e)
         | Some (Inr x1) \<Rightarrow>
             (case pivot_step_Func lt x1 left right k of
                Inl e \<Rightarrow> Some (Inl e)
              | Inr (x2, j) \<Rightarrow>
                  floydRivestFunc fuel samp x2
                    (if j \<le> k then j + 1 else left)
                    (if k \<le> j then j - 1 else right) k lt))
      else Some (Inr x))"

section \<open>The sample window\<close>

text \<open>The helper \<open>sign\<close> of \<open>topk.go\<close>.\<close>

definition sign :: "real \<Rightarrow> int" where
  "sign x = (if x < 0 then - 1 else 1)"

text \<open>
  Lines 43 to 50 of \<open>topk.go\<close> (the same lines 99 to 106 in \<open>floydRivestFunc\<close>), with
  every \<open>float64\<close> operation read as the operation on the reals: the two arguments of
  \<open>math.Floor\<close>. The rounding of \<open>float64\<close> is not part of this definition; the
  sampler \<open>samp\<close> of the engine stands for what the machine computes, and
  \<open>sampler_accurate\<close> below relates the two.
\<close>

definition sample_window :: "int \<Rightarrow> int \<Rightarrow> int \<Rightarrow> real \<times> real" where
  "sample_window left right k =
     (let n = real_of_int (right - left + 1);
          i = real_of_int (k - left + 1);
          z = ln n;
          s = 0.5 * exp (2 * z / 3);
          sd = 0.5 * sqrt (z * s * (n - s) / n) * real_of_int (sign (i - n / 2));
          kf = real_of_int k
      in (kf - i * s / n + sd, kf + (n - i) * s / n + sd))"

section \<open>The selection engine on a natively ordered type: \<open>floydRivest\<close>\<close>

text \<open>
  \<open>constraints.Ordered\<close> is modelled by the class \<open>linorder\<close>: the integer and string
  types, whose \<open><\<close> is a total order and whose \<open>==\<close> is equality, and the
  floating-point types on slices that hold no NaN. The spec asks of the native entry points
  "a natural total order" (section 6); with a NaN among the elements \<open><\<close> is not one and
  \<open>==\<close> is not reflexive. Such slices are outside these definitions; the engine at
  \<open>float64\<close> is the subject of a section of its own below.
\<close>

function advance_i :: "'a::linorder list \<Rightarrow> 'a \<Rightarrow> int \<Rightarrow> error + int" where
  "advance_i x t i =
     (if i < int (length x) then
        (case index x i of
           Inl e \<Rightarrow> Inl e
         | Inr xi \<Rightarrow> if xi < t then advance_i x t (i + 1) else Inr i)
      else Inr i)"
  by pat_completeness auto

termination
  by (relation "measure (\<lambda>(x, t, i). nat (int (length x) - i))") auto

declare advance_i.simps [simp del]

function retreat_j :: "'a::linorder list \<Rightarrow> 'a \<Rightarrow> int \<Rightarrow> error + int" where
  "retreat_j x t j =
     (if j \<ge> 0 then
        (case index x j of
           Inl e \<Rightarrow> Inl e
         | Inr xj \<Rightarrow> if t < xj then retreat_j x t (j - 1) else Inr j)
      else Inr j)"
  by pat_completeness auto

termination
  by (relation "measure (\<lambda>(x, t, j). nat (j + 1))") auto

declare retreat_j.simps [simp del]

lemma advance_i_eq_Func: "advance_i x t i = advance_i_Func (<) x t i"
proof (induction x t i rule: advance_i.induct)
  case (1 x t i)
  show ?case
  proof (cases "i < int (length x)")
    case False
    then show ?thesis by (subst advance_i.simps, subst advance_i_Func.simps) simp
  next
    case True
    show ?thesis
    proof (cases "index x i")
      case (Inl e)
      with True show ?thesis by (subst advance_i.simps, subst advance_i_Func.simps) simp
    next
      case (Inr xi)
      show ?thesis
      proof (cases "xi < t")
        case False
        with True Inr show ?thesis
          by (subst advance_i.simps, subst advance_i_Func.simps) simp
      next
        case lt: True
        have "advance_i x t (i + 1) = advance_i_Func (<) x t (i + 1)"
          using "1.IH"[OF True Inr lt] .
        with True Inr lt show ?thesis
          by (subst advance_i.simps, subst advance_i_Func.simps) simp
      qed
    qed
  qed
qed

lemma retreat_j_eq_Func: "retreat_j x t j = retreat_j_Func (<) x t j"
proof (induction x t j rule: retreat_j.induct)
  case (1 x t j)
  show ?case
  proof (cases "j \<ge> 0")
    case False
    then show ?thesis by (subst retreat_j.simps, subst retreat_j_Func.simps) simp
  next
    case True
    show ?thesis
    proof (cases "index x j")
      case (Inl e)
      with True show ?thesis by (subst retreat_j.simps, subst retreat_j_Func.simps) simp
    next
      case (Inr xj)
      show ?thesis
      proof (cases "t < xj")
        case False
        with True Inr show ?thesis
          by (subst retreat_j.simps, subst retreat_j_Func.simps) simp
      next
        case lt: True
        have "retreat_j x t (j - 1) = retreat_j_Func (<) x t (j - 1)"
          using "1.IH"[OF True Inr lt] .
        with True Inr lt show ?thesis
          by (subst retreat_j.simps, subst retreat_j_Func.simps) simp
      qed
    qed
  qed
qed

function partition_loop ::
  "'a::linorder \<Rightarrow> 'a list \<Rightarrow> int \<Rightarrow> int \<Rightarrow> error + ('a list \<times> int \<times> int)" where
  "partition_loop t x i j =
     (if i < j then
        (case swap x i j of
           Inl e \<Rightarrow> Inl e
         | Inr x1 \<Rightarrow>
             (case advance_i x1 t (i + 1) of
                Inl e \<Rightarrow> Inl e
              | Inr i1 \<Rightarrow>
                  (case retreat_j x1 t (j - 1) of
                     Inl e \<Rightarrow> Inl e
                   | Inr j1 \<Rightarrow> partition_loop t x1 i1 j1)))
      else Inr (x, i, j))"
  by pat_completeness auto

termination
proof (relation "measure (\<lambda>(t, x, i, j). nat (j - i))", goal_cases)
  case 1
  show ?case by simp
next
  case (2 t x i j x1 i1 j1)
  from 2(3) have "i + 1 \<le> i1"
    unfolding advance_i_eq_Func by (rule advance_i_Func_ge)
  moreover from 2(4) have "j1 \<le> j - 1"
    unfolding retreat_j_eq_Func by (rule retreat_j_Func_le)
  ultimately show ?case using 2(1) by simp
qed

declare partition_loop.simps [simp del]

lemma partition_loop_eq_Func: "partition_loop t x i j = partition_loop_Func (<) t x i j"
proof (induction t x i j rule: partition_loop.induct)
  case (1 t x i j)
  show ?case
  proof (cases "i < j")
    case False
    then show ?thesis by (subst partition_loop.simps, subst partition_loop_Func.simps) simp
  next
    case True
    show ?thesis
    proof (cases "swap x i j")
      case (Inl e)
      with True show ?thesis by (subst partition_loop.simps, subst partition_loop_Func.simps) simp
    next
      case x1: (Inr x1)
      show ?thesis
      proof (cases "advance_i x1 t (i + 1)")
        case (Inl e)
        with True x1 show ?thesis
          by (subst partition_loop.simps, subst partition_loop_Func.simps)
             (simp add: advance_i_eq_Func[symmetric])
      next
        case i1: (Inr i1)
        show ?thesis
        proof (cases "retreat_j x1 t (j - 1)")
          case (Inl e)
          with True x1 i1 show ?thesis
            by (subst partition_loop.simps, subst partition_loop_Func.simps)
               (simp add: advance_i_eq_Func[symmetric] retreat_j_eq_Func[symmetric])
        next
          case j1: (Inr j1)
          have "partition_loop t x1 i1 j1 = partition_loop_Func (<) t x1 i1 j1"
            using "1.IH"[OF True x1 i1 j1] .
          with True x1 i1 j1 show ?thesis
            by (subst partition_loop.simps, subst partition_loop_Func.simps)
               (simp add: advance_i_eq_Func[symmetric] retreat_j_eq_Func[symmetric])
        qed
      qed
    qed
  qed
qed

definition pivot_step ::
  "'a::linorder list \<Rightarrow> int \<Rightarrow> int \<Rightarrow> int \<Rightarrow> error + ('a list \<times> int)" where
  "pivot_step x left right k =
     (case index x k of Inl e \<Rightarrow> Inl e | Inr t \<Rightarrow>
     (case swap x left k of Inl e \<Rightarrow> Inl e | Inr x1 \<Rightarrow>
     (case index x1 right of Inl e \<Rightarrow> Inl e | Inr xr \<Rightarrow>
     (case (if t < xr then swap x1 left right else Inr x1) of Inl e \<Rightarrow> Inl e | Inr x2 \<Rightarrow>
     (case partition_loop t x2 left right of Inl e \<Rightarrow> Inl e | Inr (x3, i, j) \<Rightarrow>
     (case index x3 left of Inl e \<Rightarrow> Inl e | Inr xl \<Rightarrow>
        (if xl = t
         then (case swap x3 left j of Inl e \<Rightarrow> Inl e | Inr x4 \<Rightarrow> Inr (x4, j))
         else (case swap x3 (j + 1) right of Inl e \<Rightarrow> Inl e | Inr x4 \<Rightarrow> Inr (x4, j + 1)))))))))"

lemma pivot_step_eq_Func: "pivot_step x left right k = pivot_step_Func (<) x left right k"
proof -
  have e: "(\<not> (xl < t \<or> t < xl)) = (xl = t)" for xl t :: 'a by auto
  show ?thesis
    unfolding pivot_step_def pivot_step_Func_def partition_loop_eq_Func e by (rule refl)
qed

fun floydRivest ::
  "nat \<Rightarrow> sampler \<Rightarrow> 'a::linorder list \<Rightarrow> int \<Rightarrow> int \<Rightarrow> int \<Rightarrow> (error + 'a list) option" where
  "floydRivest 0 samp x left right k = None"
| "floydRivest (Suc fuel) samp x left right k =
     (if right > left then
        (case (if right - left > 600
               then (case samp left right k of
                       (a, b) \<Rightarrow> floydRivest fuel samp x (max_int left a) (min_int right b) k)
               else Some (Inr x)) of
           None \<Rightarrow> None
         | Some (Inl e) \<Rightarrow> Some (Inl e)
         | Some (Inr x1) \<Rightarrow>
             (case pivot_step x1 left right k of
                Inl e \<Rightarrow> Some (Inl e)
              | Inr (x2, j) \<Rightarrow>
                  floydRivest fuel samp x2
                    (if j \<le> k then j + 1 else left)
                    (if k \<le> j then j - 1 else right) k))
      else Some (Inr x))"

lemma floydRivest_eq_Func:
  "floydRivest fuel samp x left right k = floydRivestFunc fuel samp x left right k (<)"
proof (induction fuel arbitrary: x left right)
  case 0
  show ?case by simp
next
  case (Suc fuel)
  show ?case
    unfolding floydRivest.simps floydRivestFunc.simps pivot_step_eq_Func Suc.IH
    by (rule refl)
qed

section \<open>The native engine with the operators of the element type as parameters\<close>

text \<open>
  Go instantiates \<open>floydRivest\<close> and \<open>TopK\<close> at each type of \<open>constraints.Ordered\<close>
  with that type's own \<open><\<close> and \<open>==\<close>. The floating-point types are among them, and on
  a NaN their operators are not those of a total order: \<open>NaN < x\<close>, \<open>x < NaN\<close> and
  \<open>NaN == NaN\<close> are all false. To state what the native engine does there, it is written
  once more with the two operators as the parameters \<open>lt\<close> and \<open>eq\<close>; at \<open>(<)\<close> and
  \<open>(=)\<close> of a total order it is \<open>floydRivest\<close> (lemma \<open>floydRivest_eq_Ordered\<close>).
\<close>

function advance_i_Ordered :: "('a \<Rightarrow> 'a \<Rightarrow> bool) \<Rightarrow> 'a list \<Rightarrow> 'a \<Rightarrow> int \<Rightarrow> error + int" where
  "advance_i_Ordered lt x t i =
     (if i < int (length x) then
        (case index x i of
           Inl e \<Rightarrow> Inl e
         | Inr xi \<Rightarrow> if lt xi t then advance_i_Ordered lt x t (i + 1) else Inr i)
      else Inr i)"
  by pat_completeness auto
termination
  by (relation "measure (\<lambda>(lt, x, t, i). nat (int (length x) - i))") auto

declare advance_i_Ordered.simps [simp del]

function retreat_j_Ordered :: "('a \<Rightarrow> 'a \<Rightarrow> bool) \<Rightarrow> 'a list \<Rightarrow> 'a \<Rightarrow> int \<Rightarrow> error + int" where
  "retreat_j_Ordered lt x t j =
     (if j \<ge> 0 then
        (case index x j of
           Inl e \<Rightarrow> Inl e
         | Inr xj \<Rightarrow> if lt t xj then retreat_j_Ordered lt x t (j - 1) else Inr j)
      else Inr j)"
  by pat_completeness auto
termination
  by (relation "measure (\<lambda>(lt, x, t, j). nat (j + 1))") auto

declare retreat_j_Ordered.simps [simp del]

lemma advance_i_Ordered_eq_Func: "advance_i_Ordered lt x t i = advance_i_Func lt x t i"
proof (induction lt x t i rule: advance_i_Ordered.induct)
  case (1 lt x t i)
  show ?case
  proof (cases "i < int (length x)")
    case False
    then show ?thesis by (subst advance_i_Ordered.simps, subst advance_i_Func.simps) simp
  next
    case True
    show ?thesis
    proof (cases "index x i")
      case (Inl e)
      with True show ?thesis by (subst advance_i_Ordered.simps, subst advance_i_Func.simps) simp
    next
      case (Inr xi)
      show ?thesis
      proof (cases "lt xi t")
        case False
        with True Inr show ?thesis
          by (subst advance_i_Ordered.simps, subst advance_i_Func.simps) simp
      next
        case less: True
        have "advance_i_Ordered lt x t (i + 1) = advance_i_Func lt x t (i + 1)"
          using "1.IH"[OF True Inr less] .
        with True Inr less show ?thesis
          by (subst advance_i_Ordered.simps, subst advance_i_Func.simps) simp
      qed
    qed
  qed
qed

lemma retreat_j_Ordered_eq_Func: "retreat_j_Ordered lt x t j = retreat_j_Func lt x t j"
proof (induction lt x t j rule: retreat_j_Ordered.induct)
  case (1 lt x t j)
  show ?case
  proof (cases "j \<ge> 0")
    case False
    then show ?thesis by (subst retreat_j_Ordered.simps, subst retreat_j_Func.simps) simp
  next
    case True
    show ?thesis
    proof (cases "index x j")
      case (Inl e)
      with True show ?thesis by (subst retreat_j_Ordered.simps, subst retreat_j_Func.simps) simp
    next
      case (Inr xj)
      show ?thesis
      proof (cases "lt t xj")
        case False
        with True Inr show ?thesis
          by (subst retreat_j_Ordered.simps, subst retreat_j_Func.simps) simp
      next
        case less: True
        have "retreat_j_Ordered lt x t (j - 1) = retreat_j_Func lt x t (j - 1)"
          using "1.IH"[OF True Inr less] .
        with True Inr less show ?thesis
          by (subst retreat_j_Ordered.simps, subst retreat_j_Func.simps) simp
      qed
    qed
  qed
qed

function partition_loop_Ordered ::
  "('a \<Rightarrow> 'a \<Rightarrow> bool) \<Rightarrow> 'a \<Rightarrow> 'a list \<Rightarrow> int \<Rightarrow> int \<Rightarrow> error + ('a list \<times> int \<times> int)" where
  "partition_loop_Ordered lt t x i j =
     (if i < j then
        (case swap x i j of
           Inl e \<Rightarrow> Inl e
         | Inr x1 \<Rightarrow>
             (case advance_i_Ordered lt x1 t (i + 1) of
                Inl e \<Rightarrow> Inl e
              | Inr i1 \<Rightarrow>
                  (case retreat_j_Ordered lt x1 t (j - 1) of
                     Inl e \<Rightarrow> Inl e
                   | Inr j1 \<Rightarrow> partition_loop_Ordered lt t x1 i1 j1)))
      else Inr (x, i, j))"
  by pat_completeness auto
termination
proof (relation "measure (\<lambda>(lt, t, x, i, j). nat (j - i))", goal_cases)
  case 1
  show ?case by simp
next
  case (2 lt t x i j x1 i1 j1)
  from 2(3) have "i + 1 \<le> i1"
    unfolding advance_i_Ordered_eq_Func by (rule advance_i_Func_ge)
  moreover from 2(4) have "j1 \<le> j - 1"
    unfolding retreat_j_Ordered_eq_Func by (rule retreat_j_Func_le)
  ultimately show ?case using 2(1) by simp
qed

declare partition_loop_Ordered.simps [simp del]

lemma partition_loop_Ordered_eq_Func:
  "partition_loop_Ordered lt t x i j = partition_loop_Func lt t x i j"
proof (induction lt t x i j rule: partition_loop_Ordered.induct)
  case (1 lt t x i j)
  show ?case
  proof (cases "i < j")
    case False
    then show ?thesis
      by (subst partition_loop_Ordered.simps, subst partition_loop_Func.simps) simp
  next
    case True
    show ?thesis
    proof (cases "swap x i j")
      case (Inl e)
      with True show ?thesis
        by (subst partition_loop_Ordered.simps, subst partition_loop_Func.simps) simp
    next
      case x1: (Inr x1)
      show ?thesis
      proof (cases "advance_i_Ordered lt x1 t (i + 1)")
        case (Inl e)
        with True x1 show ?thesis
          by (subst partition_loop_Ordered.simps, subst partition_loop_Func.simps)
             (simp add: advance_i_Ordered_eq_Func[symmetric])
      next
        case i1: (Inr i1)
        show ?thesis
        proof (cases "retreat_j_Ordered lt x1 t (j - 1)")
          case (Inl e)
          with True x1 i1 show ?thesis
            by (subst partition_loop_Ordered.simps, subst partition_loop_Func.simps)
               (simp add: advance_i_Ordered_eq_Func[symmetric] retreat_j_Ordered_eq_Func[symmetric])
        next
          case j1: (Inr j1)
          have "partition_loop_Ordered lt t x1 i1 j1 = partition_loop_Func lt t x1 i1 j1"
            using "1.IH"[OF True x1 i1 j1] .
          with True x1 i1 j1 show ?thesis
            by (subst partition_loop_Ordered.simps, subst partition_loop_Func.simps)
               (simp add: advance_i_Ordered_eq_Func[symmetric] retreat_j_Ordered_eq_Func[symmetric])
        qed
      qed
    qed
  qed
qed

definition pivot_step_Ordered ::
  "('a \<Rightarrow> 'a \<Rightarrow> bool) \<Rightarrow> ('a \<Rightarrow> 'a \<Rightarrow> bool) \<Rightarrow> 'a list \<Rightarrow> int \<Rightarrow> int \<Rightarrow> int \<Rightarrow> error + ('a list \<times> int)" where
  "pivot_step_Ordered lt eq x left right k =
     (case index x k of Inl e \<Rightarrow> Inl e | Inr t \<Rightarrow>
     (case swap x left k of Inl e \<Rightarrow> Inl e | Inr x1 \<Rightarrow>
     (case index x1 right of Inl e \<Rightarrow> Inl e | Inr xr \<Rightarrow>
     (case (if lt t xr then swap x1 left right else Inr x1) of Inl e \<Rightarrow> Inl e | Inr x2 \<Rightarrow>
     (case partition_loop_Ordered lt t x2 left right of Inl e \<Rightarrow> Inl e | Inr (x3, i, j) \<Rightarrow>
     (case index x3 left of Inl e \<Rightarrow> Inl e | Inr xl \<Rightarrow>
        (if eq xl t
         then (case swap x3 left j of Inl e \<Rightarrow> Inl e | Inr x4 \<Rightarrow> Inr (x4, j))
         else (case swap x3 (j + 1) right of Inl e \<Rightarrow> Inl e | Inr x4 \<Rightarrow> Inr (x4, j + 1)))))))))"

fun floydRivest_Ordered ::
  "nat \<Rightarrow> sampler \<Rightarrow> ('a \<Rightarrow> 'a \<Rightarrow> bool) \<Rightarrow> ('a \<Rightarrow> 'a \<Rightarrow> bool) \<Rightarrow> 'a list \<Rightarrow> int \<Rightarrow> int \<Rightarrow> int \<Rightarrow>
     (error + 'a list) option" where
  "floydRivest_Ordered 0 samp lt eq x left right k = None"
| "floydRivest_Ordered (Suc fuel) samp lt eq x left right k =
     (if right > left then
        (case (if right - left > 600
               then (case samp left right k of
                       (a, b) \<Rightarrow>
                         floydRivest_Ordered fuel samp lt eq x (max_int left a) (min_int right b) k)
               else Some (Inr x)) of
           None \<Rightarrow> None
         | Some (Inl e) \<Rightarrow> Some (Inl e)
         | Some (Inr x1) \<Rightarrow>
             (case pivot_step_Ordered lt eq x1 left right k of
                Inl e \<Rightarrow> Some (Inl e)
              | Inr (x2, j) \<Rightarrow>
                  floydRivest_Ordered fuel samp lt eq x2
                    (if j \<le> k then j + 1 else left)
                    (if k \<le> j then j - 1 else right) k))
      else Some (Inr x))"

definition TopK_Ordered ::
  "nat \<Rightarrow> sampler \<Rightarrow> ('a \<Rightarrow> 'a \<Rightarrow> bool) \<Rightarrow> ('a \<Rightarrow> 'a \<Rightarrow> bool) \<Rightarrow> 'a list \<Rightarrow> int \<Rightarrow> (error + 'a list) option" where
  "TopK_Ordered fuel samp lt eq x k =
     (let k' = min_int k (int (length x))
      in if k' > 0 then floydRivest_Ordered fuel samp lt eq x 0 (int (length x) - 1) (k' - 1)
         else Some (Inr x))"

text \<open>
  The values of \<open>float64\<close> as far as comparison goes: NaN, or a number. The infinities
  are left out and the two zeros are one number, as \<open>==\<close> has them.
\<close>

datatype float64 = NaN | Num real

fun float64_less :: "float64 \<Rightarrow> float64 \<Rightarrow> bool" where
  "float64_less (Num p) (Num q) = (p < q)"
| "float64_less _ _ = False"

fun float64_eq :: "float64 \<Rightarrow> float64 \<Rightarrow> bool" where
  "float64_eq (Num p) (Num q) = (p = q)"
| "float64_eq _ _ = False"

section \<open>The public entry points\<close>

definition TopKFunc ::
  "nat \<Rightarrow> sampler \<Rightarrow> 'a list \<Rightarrow> int \<Rightarrow> ('a \<Rightarrow> 'a \<Rightarrow> bool) \<Rightarrow> (error + 'a list) option" where
  "TopKFunc fuel samp x k lt =
     (let k' = min_int k (int (length x))
      in if k' > 0 then floydRivestFunc fuel samp x 0 (int (length x) - 1) (k' - 1) lt
         else Some (Inr x))"

definition TopK :: "nat \<Rightarrow> sampler \<Rightarrow> 'a::linorder list \<Rightarrow> int \<Rightarrow> (error + 'a list) option" where
  "TopK fuel samp x k =
     (let k' = min_int k (int (length x))
      in if k' > 0 then floydRivest fuel samp x 0 (int (length x) - 1) (k' - 1)
         else Some (Inr x))"

text \<open>
  Modelled from the spec: \<open>slices.Sort\<close> and \<open>slices.SortFunc\<close> of
  \<open>golang.org/x/exp/slices\<close> are not part of the repository; the spec (sections 1 and 6)
  takes them as "a correct comparison sort over the prefix" that "must fully order any
  input by \<open>less\<close>". On a total order the sorted rearrangement of a list is unique, so
  \<open>slices.Sort\<close> is the library's \<open>sort\<close>. \<open>slices.SortFunc\<close> is a parameter
  \<open>srt\<close> of the callback entry points, and \<open>comparison_sort srt lt\<close> says that it
  returns a rearrangement of its input that is ascending under \<open>lt\<close>.
\<close>

definition slices_Sort :: "'a::linorder list \<Rightarrow> 'a list" where
  "slices_Sort xs = sort xs"

type_synonym 'a sorter = "('a \<Rightarrow> 'a \<Rightarrow> bool) \<Rightarrow> 'a list \<Rightarrow> 'a list"

definition comparison_sort :: "'a sorter \<Rightarrow> ('a \<Rightarrow> 'a \<Rightarrow> bool) \<Rightarrow> bool" where
  "comparison_sort srt lt \<longleftrightarrow>
     (\<forall>xs. mset (srt lt xs) = mset xs \<and> sorted_wrt (\<lambda>a b. \<not> lt b a) (srt lt xs))"

text \<open>
  \<open>slices.Sort(x[:m])\<close> and \<open>slices.SortFunc(x[:m], less)\<close>: the prefix is sorted in
  place, the rest of \<open>x\<close> stays. The slice expression panics unless
  \<open>0 \<le> m \<le> cap(x)\<close>; the model has no capacity and panics beyond \<open>len(x)\<close>.
\<close>

definition sort_prefix :: "'a::linorder list \<Rightarrow> int \<Rightarrow> error + 'a list" where
  "sort_prefix x m =
     (if 0 \<le> m \<and> m \<le> int (length x)
      then Inr (slices_Sort (take (nat m) x) @ drop (nat m) x)
      else Inl SliceBoundsOutOfRange)"

definition sort_prefix_Func ::
  "'a sorter \<Rightarrow> 'a list \<Rightarrow> int \<Rightarrow> ('a \<Rightarrow> 'a \<Rightarrow> bool) \<Rightarrow> error + 'a list" where
  "sort_prefix_Func srt x m lt =
     (if 0 \<le> m \<and> m \<le> int (length x)
      then Inr (srt lt (take (nat m) x) @ drop (nat m) x)
      else Inl SliceBoundsOutOfRange)"

text \<open>\<open>Sort\<close> and \<open>SortFunc\<close> as in \<open>src/unnamed/part_002\<close>.\<close>

definition Sort :: "nat \<Rightarrow> sampler \<Rightarrow> 'a::linorder list \<Rightarrow> int \<Rightarrow> (error + 'a list) option" where
  "Sort fuel samp x k =
     (let k' = min_int k (int (length x))
      in if k' > 0 then
           (case floydRivest fuel samp x 0 (int (length x) - 1) (k' - 1) of
              None \<Rightarrow> None
            | Some (Inl e) \<Rightarrow> Some (Inl e)
            | Some (Inr y) \<Rightarrow> Some (sort_prefix y (k' - 1)))
         else Some (Inr x))"

definition SortFunc ::
  "nat \<Rightarrow> sampler \<Rightarrow> 'a sorter \<Rightarrow> 'a list \<Rightarrow> int \<Rightarrow> ('a \<Rightarrow> 'a \<Rightarrow> bool) \<Rightarrow> (error + 'a list) option" where
  "SortFunc fuel samp srt x k lt =
     (let k' = min_int k (int (length x))
      in if k' > 0 then
           (case floydRivestFunc fuel samp x 0 (int (length x) - 1) (k' - 1) lt of
              None \<Rightarrow> None
            | Some (Inl e) \<Rightarrow> Some (Inl e)
            | Some (Inr y) \<Rightarrow> Some (sort_prefix_Func srt y (k' - 1) lt))
         else Some (Inr x))"

text \<open>The second copy of \<open>Sort\<close> and \<open>SortFunc\<close>, at lines 175 to 188 of
  \<open>src/topk.go\<close>: \<open>k\<close> is clamped to at least 1, the engine is called without a guard and
  the prefix \<open>x[:k]\<close> is sorted.\<close>

definition Sort_clamped :: "nat \<Rightarrow> sampler \<Rightarrow> 'a::linorder list \<Rightarrow> int \<Rightarrow> (error + 'a list) option" where
  "Sort_clamped fuel samp x k =
     (let k' = min_int (max_int k 1) (int (length x))
      in case floydRivest fuel samp x 0 (int (length x) - 1) (k' - 1) of
           None \<Rightarrow> None
         | Some (Inl e) \<Rightarrow> Some (Inl e)
         | Some (Inr y) \<Rightarrow> Some (sort_prefix y k'))"

definition SortFunc_clamped ::
  "nat \<Rightarrow> sampler \<Rightarrow> 'a sorter \<Rightarrow> 'a list \<Rightarrow> int \<Rightarrow> ('a \<Rightarrow> 'a \<Rightarrow> bool) \<Rightarrow> (error + 'a list) option" where
  "SortFunc_clamped fuel samp srt x k lt =
     (let k' = min_int (max_int k 1) (int (length x))
      in case floydRivestFunc fuel samp x 0 (int (length x) - 1) (k' - 1) lt of
           None \<Rightarrow> None
         | Some (Inl e) \<Rightarrow> Some (Inl e)
         | Some (Inr y) \<Rightarrow> Some (sort_prefix_Func srt y k' lt))"

section \<open>The vocabulary of the claims\<close>

text \<open>
  The properties are stated under the preconditions the spec gives the engine:
  \<^item> the callback is a strict weak order (spec, section 3): irreflexive, transitive, and
    with a transitive "neither is less" relation;
  \<^item> the \<open>float64\<close> sample bounds keep the target index between them
    (\<open>sampler_brackets\<close>) and do not return the whole window (\<open>sampler_shrinks\<close>).
    Both speak only of windows of more than 601 elements inside a slice of length \<open>n\<close>,
    so they hold of every sampler when \<open>n \<le> 601\<close>;
  \<^item> \<open>sampler_accurate\<close>: the pair the sampler returns is the floor of two reals that
    are within 1 of the values of \<open>sample_window\<close>, the formulas of \<open>topk.go\<close> over
    the reals. It implies \<open>sampler_brackets\<close> and \<open>sampler_shrinks\<close>; \<open>exact_sampler\<close>,
    which floors the real values themselves, meets it;
  \<^item> \<open>rearranged x y a b\<close>: \<open>y\<close> is \<open>x\<close> with the elements of the window \<open>[a, b]\<close>
    rearranged and every other element in place.
  \<open>sample_at_k\<close> is a sampler that brackets and shrinks, and \<open>sort_descending\<close> a
  correct external sort for the descending order on \<open>int\<close>; the theorems are instantiated
  with them at concrete inputs.
\<close>

definition strict_weak_order :: "('a \<Rightarrow> 'a \<Rightarrow> bool) \<Rightarrow> bool" where
  "strict_weak_order lt \<longleftrightarrow>
     (\<forall>a. \<not> lt a a) \<and>
     (\<forall>a b c. lt a b \<longrightarrow> lt b c \<longrightarrow> lt a c) \<and>
     (\<forall>a b c. \<not> lt a b \<and> \<not> lt b a \<longrightarrow> \<not> lt b c \<and> \<not> lt c b \<longrightarrow> \<not> lt a c \<and> \<not> lt c a)"

definition sampler_brackets :: "sampler \<Rightarrow> int \<Rightarrow> bool" where
  "sampler_brackets samp n \<longleftrightarrow>
     (\<forall>l r k. 0 \<le> l \<and> l \<le> k \<and> k \<le> r \<and> r < n \<and> r - l > 600 \<longrightarrow>
        fst (samp l r k) \<le> k \<and> k \<le> snd (samp l r k))"

definition sampler_shrinks :: "sampler \<Rightarrow> int \<Rightarrow> bool" where
  "sampler_shrinks samp n \<longleftrightarrow>
     (\<forall>l r k. 0 \<le> l \<and> l \<le> k \<and> k \<le> r \<and> r < n \<and> r - l > 600 \<longrightarrow>
        l < fst (samp l r k) \<or> snd (samp l r k) < r)"

definition sampler_accurate :: "sampler \<Rightarrow> int \<Rightarrow> bool" where
  "sampler_accurate samp n \<longleftrightarrow>
     (\<forall>l r k. 0 \<le> l \<and> l \<le> k \<and> k \<le> r \<and> r < n \<and> r - l > 600 \<longrightarrow>
        (\<exists>lo hi. \<bar>lo - fst (sample_window l r k)\<bar> \<le> 1 \<and>
                 \<bar>hi - snd (sample_window l r k)\<bar> \<le> 1 \<and>
                 samp l r k = (\<lfloor>lo\<rfloor>, \<lfloor>hi\<rfloor>)))"

definition exact_sampler :: sampler where
  "exact_sampler l r k = (\<lfloor>fst (sample_window l r k)\<rfloor>, \<lfloor>snd (sample_window l r k)\<rfloor>)"

definition rearranged :: "'a list \<Rightarrow> 'a list \<Rightarrow> int \<Rightarrow> int \<Rightarrow> bool" where
  "rearranged x y a b \<longleftrightarrow>
     length y = length x \<and> mset y = mset x \<and>
     (\<forall>n. int n < a \<or> b < int n \<longrightarrow> y ! n = x ! n) \<and>
     (\<forall>n. a \<le> int n \<and> int n \<le> b \<longrightarrow> (\<exists>m. a \<le> int m \<and> int m \<le> b \<and> y ! n = x ! m))"

definition sample_at_k :: sampler where
  "sample_at_k l r k = (k, k)"

definition sort_descending :: "int sorter" where
  "sort_descending lt xs = rev (sort xs)"

section \<open>Reads, swaps and the inner loops\<close>

lemma swo_irrefl: "strict_weak_order lt \<Longrightarrow> \<not> lt a a"
  by (simp add: strict_weak_order_def)

lemma swo_trans: "strict_weak_order lt \<Longrightarrow> lt a b \<Longrightarrow> lt b c \<Longrightarrow> lt a c"
  unfolding strict_weak_order_def by blast

lemma swo_asym: "strict_weak_order lt \<Longrightarrow> lt a b \<Longrightarrow> \<not> lt b a"
  unfolding strict_weak_order_def by blast

lemma swo_ge_trans:
  assumes "strict_weak_order lt" and "\<not> lt a b" and "\<not> lt b c"
  shows "\<not> lt a c"
  using assms unfolding strict_weak_order_def by metis

lemma index_Inr: "index x i = Inr v \<longleftrightarrow> in_range x i \<and> v = x ! nat i"
  by (auto simp: index_def)

lemma index_in_range: "in_range x i \<Longrightarrow> index x i = Inr (x ! nat i)"
  by (simp add: index_def)

lemma swap_in_range:
  "in_range x i \<Longrightarrow> in_range x j \<Longrightarrow> swap x i j = Inr (x[nat i := x ! nat j, nat j := x ! nat i])"
  by (simp add: swap_def)

lemma swap_Inr:
  "swap x i j = Inr y \<longleftrightarrow> in_range x i \<and> in_range x j \<and> y = x[nat i := x ! nat j, nat j := x ! nat i]"
  by (auto simp: swap_def)

lemma swap_length: "swap x i j = Inr y \<Longrightarrow> length y = length x"
  by (auto simp: swap_Inr)

lemma swap_mset: "swap x i j = Inr y \<Longrightarrow> mset y = mset x"
  by (auto simp: swap_Inr in_range_def mset_swap)

lemma swap_nth:
  assumes "swap x i j = Inr y"
  shows "y ! n = (if int n = j then x ! nat i else if int n = i then x ! nat j else x ! n)"
proof -
  from assms have r: "in_range x i" "in_range x j"
    and y: "y = x[nat i := x ! nat j, nat j := x ! nat i]"
    by (auto simp: swap_Inr)
  from r have "nat i < length x" "nat j < length x" "0 \<le> i" "0 \<le> j"
    by (auto simp: in_range_def)
  then show ?thesis unfolding y
    by (auto simp: nth_list_update)
qed

lemma advance_i_Func_spec:
  assumes "0 \<le> i"
  shows "\<exists>i'. advance_i_Func lt x t i = Inr i' \<and> i \<le> i' \<and>
           (i' \<le> int (length x) \<or> i' = i) \<and>
           (\<forall>n. i \<le> int n \<and> int n < i' \<longrightarrow> lt (x ! n) t) \<and>
           (i' < int (length x) \<longrightarrow> \<not> lt (x ! nat i') t)"
  using assms
proof (induction lt x t i rule: advance_i_Func.induct)
  case (1 lt x t i)
  show ?case
  proof (cases "i < int (length x)")
    case False
    then show ?thesis by (subst advance_i_Func.simps) auto
  next
    case True
    with \<open>0 \<le> i\<close> have ix: "index x i = Inr (x ! nat i)"
      by (simp add: index_def in_range_def)
    show ?thesis
    proof (cases "lt (x ! nat i) t")
      case False
      with True ix show ?thesis by (subst advance_i_Func.simps) auto
    next
      case lt: True
      from "1.IH"[OF True ix lt] \<open>0 \<le> i\<close>
      obtain i' where i': "advance_i_Func lt x t (i + 1) = Inr i'" "i + 1 \<le> i'"
        "i' \<le> int (length x) \<or> i' = i + 1"
        "\<forall>n. i + 1 \<le> int n \<and> int n < i' \<longrightarrow> lt (x ! n) t"
        "i' < int (length x) \<longrightarrow> \<not> lt (x ! nat i') t"
        by auto
      have "advance_i_Func lt x t i = Inr i'"
        using True ix lt i'(1) by (subst advance_i_Func.simps) simp
      moreover have "\<forall>n. i \<le> int n \<and> int n < i' \<longrightarrow> lt (x ! n) t"
      proof (intro allI impI)
        fix n assume n: "i \<le> int n \<and> int n < i'"
        show "lt (x ! n) t"
        proof (cases "int n = i")
          case True
          then have "nat i = n" by simp
          with lt show ?thesis by simp
        next
          case False
          with n i'(4) show ?thesis by auto
        qed
      qed
      ultimately show ?thesis using i' True by auto
    qed
  qed
qed

lemma retreat_j_Func_spec:
  assumes "j < int (length x)"
  shows "\<exists>j'. retreat_j_Func lt x t j = Inr j' \<and> j' \<le> j \<and>
           (- 1 \<le> j' \<or> j' = j) \<and>
           (\<forall>n. j' < int n \<and> int n \<le> j \<longrightarrow> lt t (x ! n)) \<and>
           (0 \<le> j' \<longrightarrow> \<not> lt t (x ! nat j'))"
  using assms
proof (induction lt x t j rule: retreat_j_Func.induct)
  case (1 lt x t j)
  show ?case
  proof (cases "j \<ge> 0")
    case False
    then show ?thesis by (subst retreat_j_Func.simps) auto
  next
    case True
    with \<open>j < int (length x)\<close> have ix: "index x j = Inr (x ! nat j)"
      by (simp add: index_def in_range_def)
    show ?thesis
    proof (cases "lt t (x ! nat j)")
      case False
      with True ix show ?thesis by (subst retreat_j_Func.simps) auto
    next
      case lt: True
      from "1.IH"[OF True ix lt] \<open>j < int (length x)\<close>
      obtain j' where j': "retreat_j_Func lt x t (j - 1) = Inr j'" "j' \<le> j - 1"
        "- 1 \<le> j' \<or> j' = j - 1"
        "\<forall>n. j' < int n \<and> int n \<le> j - 1 \<longrightarrow> lt t (x ! n)"
        "0 \<le> j' \<longrightarrow> \<not> lt t (x ! nat j')"
        by auto
      have "retreat_j_Func lt x t j = Inr j'"
        using True ix lt j'(1) by (subst retreat_j_Func.simps) simp
      moreover have "\<forall>n. j' < int n \<and> int n \<le> j \<longrightarrow> lt t (x ! n)"
      proof (intro allI impI)
        fix n assume n: "j' < int n \<and> int n \<le> j"
        show "lt t (x ! n)"
        proof (cases "int n = j")
          case True
          then have "nat j = n" by simp
          with lt show ?thesis by simp
        next
          case False
          with n j'(4) show ?thesis by auto
        qed
      qed
      ultimately show ?thesis using j' True by auto
    qed
  qed
qed

section \<open>The partition loop\<close>

lemma partition_loop_Func_safe:
  assumes "0 \<le> i" and "j < int (length x)"
  shows "\<exists>x' i' j'. partition_loop_Func lt t x i j = Inr (x', i', j') \<and>
           length x' = length x \<and> mset x' = mset x \<and>
           (\<forall>n. int n < i \<or> j < int n \<longrightarrow> x' ! n = x ! n) \<and>
           (i < j \<longrightarrow> x' ! nat i = x ! nat j \<and> x' ! nat j = x ! nat i \<and>
              - 1 \<le> j' \<and> j' < j \<and>
              (\<forall>l. 0 \<le> l \<and> l \<le> i \<and> \<not> lt t (x' ! nat l) \<longrightarrow> l \<le> j'))"
  using assms
proof (induction lt t x i j rule: partition_loop_Func.induct)
  case (1 lt t x i j)
  show ?case
  proof (cases "i < j")
    case False
    then show ?thesis by (subst partition_loop_Func.simps) simp
  next
    case True
    with "1.prems" have ri: "in_range x i" and rj: "in_range x j"
      by (auto simp: in_range_def)
    define x1 where "x1 = x[nat i := x ! nat j, nat j := x ! nat i]"
    have sw: "swap x i j = Inr x1"
      using ri rj by (simp add: swap_in_range x1_def)
    have len1: "length x1 = length x" using sw by (rule swap_length)
    have ms1: "mset x1 = mset x" using sw by (rule swap_mset)
    from advance_i_Func_spec[of "i + 1" lt x1 t] "1.prems"
    obtain i1 where i1: "advance_i_Func lt x1 t (i + 1) = Inr i1" "i + 1 \<le> i1"
      by auto
    from retreat_j_Func_spec[of "j - 1" x1 lt t] "1.prems" len1
    obtain j1 where j1: "retreat_j_Func lt x1 t (j - 1) = Inr j1" "j1 \<le> j - 1"
      "- 1 \<le> j1 \<or> j1 = j - 1"
      "\<forall>n. j1 < int n \<and> int n \<le> j - 1 \<longrightarrow> lt t (x1 ! n)"
      by auto
    have unf: "partition_loop_Func lt t x i j = partition_loop_Func lt t x1 i1 j1"
      using True sw i1(1) j1(1) by (subst partition_loop_Func.simps) simp
    have "0 \<le> i1" using i1(2) "1.prems" by simp
    moreover have "j1 < int (length x1)" using j1(2) "1.prems" len1 by simp
    ultimately obtain x' i' j' where
      r: "partition_loop_Func lt t x1 i1 j1 = Inr (x', i', j')"
      and len: "length x' = length x1" and ms: "mset x' = mset x1"
      and fr: "\<forall>n. int n < i1 \<or> j1 < int n \<longrightarrow> x' ! n = x1 ! n"
      and rest: "i1 < j1 \<longrightarrow> - 1 \<le> j' \<and> j' < j1 \<and>
              (\<forall>l. 0 \<le> l \<and> l \<le> i1 \<and> \<not> lt t (x' ! nat l) \<longrightarrow> l \<le> j')"
      using "1.IH"[OF True sw i1(1) j1(1)] by blast
    have fr0: "\<forall>n. int n < i \<or> j < int n \<longrightarrow> x' ! n = x ! n"
    proof (intro allI impI)
      fix n assume n: "int n < i \<or> j < int n"
      then have "x' ! n = x1 ! n" using fr i1(2) j1(2) by auto
      also have "x1 ! n = x ! n" using swap_nth[OF sw, of n] n True by auto
      finally show "x' ! n = x ! n" .
    qed
    have xi: "x' ! nat i = x ! nat j"
    proof -
      have "x' ! nat i = x1 ! nat i" using fr i1(2) "1.prems" by auto
      also have "\<dots> = x ! nat j" using swap_nth[OF sw, of "nat i"] True "1.prems" by auto
      finally show ?thesis .
    qed
    have xj: "x' ! nat j = x ! nat i"
    proof -
      have "0 \<le> j" using True "1.prems" by simp
      then have "x' ! nat j = x1 ! nat j" using fr j1(2) by auto
      also have "\<dots> = x ! nat i" using swap_nth[OF sw, of "nat j"] \<open>0 \<le> j\<close> by auto
      finally show ?thesis .
    qed
    have jb: "- 1 \<le> j' \<and> j' < j \<and>
              (\<forall>l. 0 \<le> l \<and> l \<le> i \<and> \<not> lt t (x' ! nat l) \<longrightarrow> l \<le> j')"
    proof (cases "i1 < j1")
      case True
      with rest i1(2) j1(2) show ?thesis by auto
    next
      case False
      have "partition_loop_Func lt t x1 i1 j1 = Inr (x1, i1, j1)"
        using False by (subst partition_loop_Func.simps) simp
      with r have eq: "x' = x1" "j' = j1" by simp_all
      have "- 1 \<le> j1" using j1(3) True "1.prems" by auto
      moreover have "\<forall>l. 0 \<le> l \<and> l \<le> i \<and> \<not> lt t (x1 ! nat l) \<longrightarrow> l \<le> j1"
      proof (intro allI impI)
        fix l assume l: "0 \<le> l \<and> l \<le> i \<and> \<not> lt t (x1 ! nat l)"
        show "l \<le> j1"
        proof (rule ccontr)
          assume "\<not> l \<le> j1"
          with l True have "j1 < int (nat l) \<and> int (nat l) \<le> j - 1" by auto
          with j1(4) have "lt t (x1 ! nat l)" by blast
          with l show False by simp
        qed
      qed
      ultimately show ?thesis using j1(2) eq by auto
    qed
    show ?thesis
      unfolding unf using r len len1 ms ms1 fr0 xi xj jb by auto
  qed
qed

lemma partition_loop_Func_swo:
  assumes swo: "strict_weak_order lt"
    and "0 \<le> l" and "l \<le> i" and "i < j" and "j \<le> r" and "r < int (length x)"
    and "\<forall>n. l \<le> int n \<and> int n < i \<longrightarrow> \<not> lt t (x ! n)"
    and "\<forall>n. j < int n \<and> int n \<le> r \<longrightarrow> \<not> lt (x ! n) t"
    and "\<not> lt (x ! nat i) t" and "\<not> lt t (x ! nat j)"
    and "partition_loop_Func lt t x i j = Inr (x', i', j')"
  shows "i \<le> j' \<and> j' < j \<and>
         (\<forall>n. l \<le> int n \<and> int n \<le> j' \<longrightarrow> \<not> lt t (x' ! n)) \<and>
         (\<forall>n. j' < int n \<and> int n \<le> r \<longrightarrow> \<not> lt (x' ! n) t)"
  using assms
proof (induction lt t x i j rule: partition_loop_Func.induct)
  case (1 lt t x i j)
  note swo = \<open>strict_weak_order lt\<close>
  have bounds: "0 \<le> l" "l \<le> i" "i < j" "j \<le> r" "r < int (length x)" by fact+
  have A: "\<forall>n. l \<le> int n \<and> int n < i \<longrightarrow> \<not> lt t (x ! n)" by fact
  have B: "\<forall>n. j < int n \<and> int n \<le> r \<longrightarrow> \<not> lt (x ! n) t" by fact
  have C: "\<not> lt (x ! nat i) t" by fact
  have D: "\<not> lt t (x ! nat j)" by fact
  have res: "partition_loop_Func lt t x i j = Inr (x', i', j')" by fact
  from bounds have ri: "in_range x i" and rj: "in_range x j"
    by (auto simp: in_range_def)
  define x1 where "x1 = x[nat i := x ! nat j, nat j := x ! nat i]"
  have sw: "swap x i j = Inr x1"
    using ri rj by (simp add: swap_in_range x1_def)
  have len1: "length x1 = length x" using sw by (rule swap_length)
  have x1n: "x1 ! n = (if int n = j then x ! nat i else if int n = i then x ! nat j else x ! n)" for n
    using sw by (rule swap_nth)
  from advance_i_Func_spec[of "i + 1" lt x1 t] bounds
  obtain i1 where i1: "advance_i_Func lt x1 t (i + 1) = Inr i1" "i + 1 \<le> i1"
    "\<forall>n. i + 1 \<le> int n \<and> int n < i1 \<longrightarrow> lt (x1 ! n) t"
    "i1 < int (length x1) \<longrightarrow> \<not> lt (x1 ! nat i1) t"
    by auto
  from retreat_j_Func_spec[of "j - 1" x1 lt t] bounds len1
  obtain j1 where j1: "retreat_j_Func lt x1 t (j - 1) = Inr j1" "j1 \<le> j - 1"
    "\<forall>n. j1 < int n \<and> int n \<le> j - 1 \<longrightarrow> lt t (x1 ! n)"
    "0 \<le> j1 \<longrightarrow> \<not> lt t (x1 ! nat j1)"
    by auto
  have unf: "partition_loop_Func lt t x i j = partition_loop_Func lt t x1 i1 j1"
    using bounds sw i1(1) j1(1) by (subst partition_loop_Func.simps) simp
  have i1j: "i1 \<le> j"
  proof (rule ccontr)
    assume "\<not> i1 \<le> j"
    with bounds have "i + 1 \<le> int (nat j) \<and> int (nat j) < i1" by auto
    with i1(3) have "lt (x1 ! nat j) t" by blast
    moreover have "x1 ! nat j = x ! nat i" using x1n[of "nat j"] bounds by auto
    ultimately show False using C by simp
  qed
  have j1i: "i1 - 1 \<le> j1"
  proof (rule ccontr)
    assume n: "\<not> i1 - 1 \<le> j1"
    have nn: "0 \<le> i1 - 1" using i1(2) bounds by simp
    with n i1j have "j1 < int (nat (i1 - 1)) \<and> int (nat (i1 - 1)) \<le> j - 1" by auto
    with j1(3) have lt1: "lt t (x1 ! nat (i1 - 1))" by blast
    show False
    proof (cases "i1 - 1 = i")
      case True
      then have "x1 ! nat (i1 - 1) = x ! nat j" using x1n[of "nat i"] bounds by auto
      with lt1 D show False by simp
    next
      case False
      with i1(2) nn have "i + 1 \<le> int (nat (i1 - 1)) \<and> int (nat (i1 - 1)) < i1" by auto
      with i1(3) have "lt (x1 ! nat (i1 - 1)) t" by blast
      with lt1 swo_asym[OF swo] show False by blast
    qed
  qed
  have A1: "\<forall>n. l \<le> int n \<and> int n < i1 \<longrightarrow> \<not> lt t (x1 ! n)"
  proof (intro allI impI)
    fix n assume n: "l \<le> int n \<and> int n < i1"
    consider "int n < i" | "int n = i" | "i + 1 \<le> int n" by linarith
    then show "\<not> lt t (x1 ! n)"
    proof cases
      case 1
      with n A bounds x1n[of n] show ?thesis by auto
    next
      case 2
      with D bounds x1n[of n] show ?thesis by auto
    next
      case 3
      with n i1(3) have "lt (x1 ! n) t" by blast
      with swo_asym[OF swo] show ?thesis by blast
    qed
  qed
  have B1: "\<forall>n. j1 < int n \<and> int n \<le> r \<longrightarrow> \<not> lt (x1 ! n) t"
  proof (intro allI impI)
    fix n assume n: "j1 < int n \<and> int n \<le> r"
    consider "j < int n" | "int n = j" | "int n \<le> j - 1" by linarith
    then show "\<not> lt (x1 ! n) t"
    proof cases
      case 1
      with n B bounds x1n[of n] show ?thesis by auto
    next
      case 2
      with C bounds x1n[of n] show ?thesis by auto
    next
      case 3
      with n j1(3) have "lt t (x1 ! n)" by blast
      with swo_asym[OF swo] show ?thesis by blast
    qed
  qed
  have C1: "\<not> lt (x1 ! nat i1) t"
    using i1(4) i1j bounds len1 by auto
  have D1: "\<not> lt t (x1 ! nat j1)"
    using j1(4) j1i i1(2) bounds by auto
  show ?case
  proof (cases "i1 < j1")
    case True
    have "partition_loop_Func lt t x1 i1 j1 = Inr (x', i', j')"
      using res unf by simp
    from "1.IH"[OF \<open>i < j\<close> sw i1(1) j1(1) swo \<open>0 \<le> l\<close> _ True _ _ A1 B1 C1 D1 this]
    have "i1 \<le> j' \<and> j' < j1 \<and>
         (\<forall>n. l \<le> int n \<and> int n \<le> j' \<longrightarrow> \<not> lt t (x' ! n)) \<and>
         (\<forall>n. j' < int n \<and> int n \<le> r \<longrightarrow> \<not> lt (x' ! n) t)"
      using bounds i1(2) j1(2) len1 by auto
    then show ?thesis using i1(2) j1(2) by auto
  next
    case False
    have "partition_loop_Func lt t x1 i1 j1 = Inr (x1, i1, j1)"
      using False by (subst partition_loop_Func.simps) simp
    with res unf have eq: "x' = x1" "j' = j1" by simp_all
    have "\<forall>n. l \<le> int n \<and> int n \<le> j1 \<longrightarrow> \<not> lt t (x1 ! n)"
    proof (intro allI impI)
      fix n assume n: "l \<le> int n \<and> int n \<le> j1"
      show "\<not> lt t (x1 ! n)"
      proof (cases "int n < i1")
        case True
        with n A1 show ?thesis by blast
      next
        case False
        with n \<open>\<not> i1 < j1\<close> have "int n = j1" by linarith
        then have "nat j1 = n" by simp
        with D1 show ?thesis by simp
      qed
    qed
    then show ?thesis using eq B1 j1i i1(2) j1(2) by auto
  qed
qed

section \<open>Rearrangement inside a window\<close>

lemma rearranged_refl: "rearranged x x a b"
  by (auto simp: rearranged_def)

lemma rearranged_trans: "rearranged x y a b \<Longrightarrow> rearranged y z a b \<Longrightarrow> rearranged x z a b"
  unfolding rearranged_def by (intro conjI; metis)

lemma rearranged_widen:
  assumes "rearranged x y a' b'" and "a \<le> a'" and "b' \<le> b"
  shows "rearranged x y a b"
proof -
  have "\<exists>m. a \<le> int m \<and> int m \<le> b \<and> y ! n = x ! m" if n: "a \<le> int n \<and> int n \<le> b" for n
  proof (cases "a' \<le> int n \<and> int n \<le> b'")
    case True
    with assms(1) obtain m where "a' \<le> int m \<and> int m \<le> b' \<and> y ! n = x ! m"
      unfolding rearranged_def by blast
    with assms(2,3) show ?thesis by (intro exI[of _ m]) auto
  next
    case False
    with assms(1) have "y ! n = x ! n" unfolding rearranged_def by auto
    with n show ?thesis by blast
  qed
  moreover have "y ! n = x ! n" if "int n < a \<or> b < int n" for n
    using that assms unfolding rearranged_def by auto
  ultimately show ?thesis using assms(1) unfolding rearranged_def by blast
qed

lemma rearranged_swap:
  assumes "swap x i j = Inr y" and "a \<le> i" and "i \<le> b" and "a \<le> j" and "j \<le> b"
  shows "rearranged x y a b"
proof -
  from assms(1) have r: "0 \<le> i" "0 \<le> j" by (auto simp: swap_Inr in_range_def)
  have "\<exists>m. a \<le> int m \<and> int m \<le> b \<and> y ! n = x ! m" if n: "a \<le> int n \<and> int n \<le> b" for n
  proof -
    consider "int n = j" | "int n \<noteq> j" "int n = i" | "int n \<noteq> j" "int n \<noteq> i" by blast
    then show ?thesis
    proof cases
      case 1
      then show ?thesis using swap_nth[OF assms(1), of n] assms(2,3) r
        by (intro exI[of _ "nat i"]) auto
    next
      case 2
      then show ?thesis using swap_nth[OF assms(1), of n] assms(4,5) r
        by (intro exI[of _ "nat j"]) auto
    next
      case 3
      then show ?thesis using swap_nth[OF assms(1), of n] n
        by (intro exI[of _ n]) auto
    qed
  qed
  moreover have "y ! n = x ! n" if "int n < a \<or> b < int n" for n
    using that swap_nth[OF assms(1), of n] assms(2-5) by auto
  ultimately show ?thesis
    using swap_length[OF assms(1)] swap_mset[OF assms(1)] unfolding rearranged_def by blast
qed

lemma partition_loop_Func_rearranged:
  assumes "0 \<le> i" and "j < int (length x)"
    and "partition_loop_Func lt t x i j = Inr (x', i', j')"
  shows "rearranged x x' i j"
  using assms
proof (induction lt t x i j rule: partition_loop_Func.induct)
  case (1 lt t x i j)
  show ?case
  proof (cases "i < j")
    case False
    with "1.prems"(3) have "x' = x"
      by (subst (asm) partition_loop_Func.simps) simp
    then show ?thesis by (simp add: rearranged_refl)
  next
    case True
    with "1.prems" have ri: "in_range x i" and rj: "in_range x j"
      by (auto simp: in_range_def)
    define x1 where "x1 = x[nat i := x ! nat j, nat j := x ! nat i]"
    have sw: "swap x i j = Inr x1"
      using ri rj by (simp add: swap_in_range x1_def)
    have len1: "length x1 = length x" using sw by (rule swap_length)
    from advance_i_Func_spec[of "i + 1" lt x1 t] "1.prems"
    obtain i1 where i1: "advance_i_Func lt x1 t (i + 1) = Inr i1" "i + 1 \<le> i1"
      by auto
    from retreat_j_Func_spec[of "j - 1" x1 lt t] "1.prems" len1
    obtain j1 where j1: "retreat_j_Func lt x1 t (j - 1) = Inr j1" "j1 \<le> j - 1"
      by auto
    have unf: "partition_loop_Func lt t x i j = partition_loop_Func lt t x1 i1 j1"
      using True sw i1(1) j1(1) by (subst partition_loop_Func.simps) simp
    have "rearranged x1 x' i1 j1"
      using "1.IH"[OF True sw i1(1) j1(1)] i1(2) j1(2) "1.prems" len1 unf by auto
    then have "rearranged x1 x' i j"
      using i1(2) j1(2) by (auto intro: rearranged_widen)
    moreover have "rearranged x x1 i j"
      using sw True by (auto intro: rearranged_swap)
    ultimately show ?thesis by (rule rearranged_trans[rotated])
  qed
qed

section \<open>One partition pass\<close>

lemma pivot_step_Func_spec:
  assumes "0 \<le> left" and "left \<le> k" and "k \<le> right" and "left < right"
    and "right < int (length x)"
  shows "\<exists>x4 j. pivot_step_Func lt x left right k = Inr (x4, j) \<and>
           length x4 = length x \<and> mset x4 = mset x \<and> 0 \<le> j \<and> j \<le> right \<and>
           (strict_weak_order lt \<longrightarrow>
              left \<le> j \<and> rearranged x x4 left right \<and>
              (\<forall>n. left \<le> int n \<and> int n < j \<longrightarrow> \<not> lt (x4 ! nat j) (x4 ! n)) \<and>
              (\<forall>n. j < int n \<and> int n \<le> right \<longrightarrow> \<not> lt (x4 ! n) (x4 ! nat j)))"
proof -
  define t where "t = x ! nat k"
  have rl: "in_range x left" and rk: "in_range x k" and rr: "in_range x right"
    using assms by (auto simp: in_range_def)
  have ik: "index x k = Inr t" using rk by (simp add: index_in_range t_def)
  define x1 where "x1 = x[nat left := x ! nat k, nat k := x ! nat left]"
  have sw1: "swap x left k = Inr x1" using rl rk by (simp add: swap_in_range x1_def)
  have len1: "length x1 = length x" using sw1 by (rule swap_length)
  have w1: "rearranged x x1 left right" using sw1 assms by (auto intro: rearranged_swap)
  have x1l: "x1 ! nat left = t"
    using swap_nth[OF sw1, of "nat left"] assms(1) by (auto simp: t_def)
  have rl1: "in_range x1 left" and rr1: "in_range x1 right"
    using rl rr len1 by (auto simp: in_range_def)
  define xr where "xr = x1 ! nat right"
  have ir: "index x1 right = Inr xr" using rr1 by (simp add: index_in_range xr_def)
  define x2 where "x2 = (if lt t xr then x1[nat left := x1 ! nat right, nat right := x1 ! nat left] else x1)"
  have sw2: "(if lt t xr then swap x1 left right else Inr x1) = Inr x2"
    using rl1 rr1 by (simp add: swap_in_range x2_def)
  have len2: "length x2 = length x"
    using len1 by (simp add: x2_def)
  have w12: "rearranged x1 x2 left right"
  proof (cases "lt t xr")
    case True
    with sw2 have "swap x1 left right = Inr x2" by simp
    then show ?thesis using assms by (auto intro: rearranged_swap)
  next
    case False
    then show ?thesis by (simp add: x2_def rearranged_refl)
  qed
  have w2: "rearranged x x2 left right" using w1 w12 by (rule rearranged_trans)
  have x2lr: "(x2 ! nat right = t \<and> lt t (x2 ! nat left)) \<or> (x2 ! nat left = t \<and> \<not> lt t (x2 ! nat right))"
  proof (cases "lt t xr")
    case True
    with sw2 have s: "swap x1 left right = Inr x2" by simp
    have "x2 ! nat right = t"
      using swap_nth[OF s, of "nat right"] assms x1l by auto
    moreover have "x2 ! nat left = xr"
      using swap_nth[OF s, of "nat left"] assms by (auto simp: xr_def)
    ultimately show ?thesis using True by simp
  next
    case False
    then show ?thesis by (simp add: x2_def x1l xr_def)
  qed
  from partition_loop_Func_safe[of left right x2 lt t] assms len2
  obtain x3 i3 j3 where
    lp: "partition_loop_Func lt t x2 left right = Inr (x3, i3, j3)"
    and len3: "length x3 = length x2"
    and x3l: "x3 ! nat left = x2 ! nat right" and x3r: "x3 ! nat right = x2 ! nat left"
    and j3: "- 1 \<le> j3" "j3 < right"
    and j3l: "\<forall>l. 0 \<le> l \<and> l \<le> left \<and> \<not> lt t (x3 ! nat l) \<longrightarrow> l \<le> j3"
    by auto
  have w23: "rearranged x2 x3 left right"
    using partition_loop_Func_rearranged[OF _ _ lp] assms len2 by simp
  have w3: "rearranged x x3 left right" using w2 w23 by (rule rearranged_trans)
  define xl where "xl = x3 ! nat left"
  have rl3: "in_range x3 left" and rr3: "in_range x3 right"
    using rl rr len2 len3 by (auto simp: in_range_def)
  have il: "index x3 left = Inr xl" using rl3 by (simp add: index_in_range xl_def)
  have swo_loop: "left \<le> j3 \<and>
         (\<forall>n. left \<le> int n \<and> int n \<le> j3 \<longrightarrow> \<not> lt t (x3 ! n)) \<and>
         (\<forall>n. j3 < int n \<and> int n \<le> right \<longrightarrow> \<not> lt (x3 ! n) t)" if swo: "strict_weak_order lt"
  proof -
    have C: "\<not> lt (x2 ! nat left) t"
      using x2lr swo_asym[OF swo] swo_irrefl[OF swo] by metis
    have D: "\<not> lt t (x2 ! nat right)"
      using x2lr swo_irrefl[OF swo] by metis
    have A0: "\<forall>n. left \<le> int n \<and> int n < left \<longrightarrow> \<not> lt t (x2 ! n)" by auto
    have B0: "\<forall>n. right < int n \<and> int n \<le> right \<longrightarrow> \<not> lt (x2 ! n) t" by auto
    have "right < int (length x2)" using assms(5) len2 by simp
    from partition_loop_Func_swo[OF swo assms(1) order_refl assms(4) order_refl this A0 B0 C D lp]
    show ?thesis by auto
  qed
  show ?thesis
  proof (cases "\<not> (lt xl t \<or> lt t xl)")
    case True
    then have "left \<le> j3" using j3l assms(1) by (auto simp: xl_def)
    then have rj3: "in_range x3 j3" using j3 rr3 assms(1) by (auto simp: in_range_def)
    define x4 where "x4 = x3[nat left := x3 ! nat j3, nat j3 := x3 ! nat left]"
    have sw4: "swap x3 left j3 = Inr x4" using rl3 rj3 by (simp add: swap_in_range x4_def)
    have res: "pivot_step_Func lt x left right k = Inr (x4, j3)"
      unfolding pivot_step_Func_def using ik sw1 ir sw2 lp il True sw4 by simp
    have len4: "length x4 = length x" using swap_length[OF sw4] len3 len2 by simp
    have w34: "rearranged x3 x4 left right"
      using sw4 assms \<open>left \<le> j3\<close> j3 by (auto intro: rearranged_swap)
    have w4: "rearranged x x4 left right" using w3 w34 by (rule rearranged_trans)
    have ms4: "mset x4 = mset x" using w4 by (simp add: rearranged_def)
    have x4n: "x4 ! n = (if int n = j3 then x3 ! nat left else if int n = left then x3 ! nat j3 else x3 ! n)" for n
      using sw4 by (rule swap_nth)
    have sem: "(\<forall>n. left \<le> int n \<and> int n < j3 \<longrightarrow> \<not> lt (x4 ! nat j3) (x4 ! n)) \<and>
              (\<forall>n. j3 < int n \<and> int n \<le> right \<longrightarrow> \<not> lt (x4 ! n) (x4 ! nat j3))"
      if swo: "strict_weak_order lt"
    proof -
      from swo_loop[OF swo] have
        A: "\<forall>n. left \<le> int n \<and> int n \<le> j3 \<longrightarrow> \<not> lt t (x3 ! n)" and
        B: "\<forall>n. j3 < int n \<and> int n \<le> right \<longrightarrow> \<not> lt (x3 ! n) t" by auto
      have p: "x4 ! nat j3 = xl" using x4n[of "nat j3"] \<open>left \<le> j3\<close> assms(1) by (auto simp: xl_def)
      have "\<not> lt xl (x4 ! n)" if n: "left \<le> int n \<and> int n < j3" for n
      proof -
        have "\<not> lt t (x4 ! n)"
        proof (cases "int n = left")
          case True
          then have "x4 ! n = x3 ! nat j3" using x4n[of n] n by auto
          moreover have "\<not> lt t (x3 ! nat j3)" using A \<open>left \<le> j3\<close> assms(1) by auto
          ultimately show ?thesis by simp
        next
          case False
          then have "x4 ! n = x3 ! n" using x4n[of n] n by auto
          then show ?thesis using A n by auto
        qed
        with True swo_ge_trans[OF swo, of xl t "x4 ! n"] show ?thesis by blast
      qed
      moreover have "\<not> lt (x4 ! n) xl" if n: "j3 < int n \<and> int n \<le> right" for n
      proof -
        have "x4 ! n = x3 ! n" using x4n[of n] n \<open>left \<le> j3\<close> by auto
        then have "\<not> lt (x4 ! n) t" using B n by auto
        with True swo_ge_trans[OF swo, of "x4 ! n" t xl] show ?thesis by blast
      qed
      ultimately show ?thesis unfolding p by blast
    qed
    show ?thesis
      using res len4 ms4 \<open>left \<le> j3\<close> assms(1) j3 w4 sem
      by (intro exI[of _ x4] exI[of _ j3]) auto
  next
    case False
    have rj3: "in_range x3 (j3 + 1)" using j3 rr3 by (auto simp: in_range_def)
    define x4 where "x4 = x3[nat (j3 + 1) := x3 ! nat right, nat right := x3 ! nat (j3 + 1)]"
    have sw4: "swap x3 (j3 + 1) right = Inr x4" using rr3 rj3 by (simp add: swap_in_range x4_def)
    have res: "pivot_step_Func lt x left right k = Inr (x4, j3 + 1)"
      unfolding pivot_step_Func_def using ik sw1 ir sw2 lp il False sw4 by simp
    have len4: "length x4 = length x" using swap_length[OF sw4] len3 len2 by simp
    have ms4: "mset x4 = mset x" using swap_mset[OF sw4] w3 by (simp add: rearranged_def)
    have x4n: "x4 ! n = (if int n = right then x3 ! nat (j3 + 1) else if int n = j3 + 1 then x3 ! nat right else x3 ! n)" for n
      using sw4 by (rule swap_nth)
    have sem: "left \<le> j3 + 1 \<and> rearranged x x4 left right \<and>
              (\<forall>n. left \<le> int n \<and> int n < j3 + 1 \<longrightarrow> \<not> lt (x4 ! nat (j3 + 1)) (x4 ! n)) \<and>
              (\<forall>n. j3 + 1 < int n \<and> int n \<le> right \<longrightarrow> \<not> lt (x4 ! n) (x4 ! nat (j3 + 1)))"
      if swo: "strict_weak_order lt"
    proof -
      from swo_loop[OF swo] have lj: "left \<le> j3" and
        A: "\<forall>n. left \<le> int n \<and> int n \<le> j3 \<longrightarrow> \<not> lt t (x3 ! n)" and
        B: "\<forall>n. j3 < int n \<and> int n \<le> right \<longrightarrow> \<not> lt (x3 ! n) t" by auto
      have "x2 ! nat right \<noteq> t"
        using False swo_irrefl[OF swo] x3l by (auto simp: xl_def)
      with x2lr have "x2 ! nat left = t" by blast
      with x3r have x3rt: "x3 ! nat right = t" by simp
      have p: "x4 ! nat (j3 + 1) = t"
        using x4n[of "nat (j3 + 1)"] j3 x3rt by auto
      have w34: "rearranged x3 x4 left right"
        using sw4 assms lj j3 by (auto intro: rearranged_swap)
      have w4: "rearranged x x4 left right" using w3 w34 by (rule rearranged_trans)
      have "\<not> lt t (x4 ! n)" if n: "left \<le> int n \<and> int n < j3 + 1" for n
      proof -
        have "x4 ! n = x3 ! n" using x4n[of n] n j3 by auto
        then show ?thesis using A n by auto
      qed
      moreover have "\<not> lt (x4 ! n) t" if n: "j3 + 1 < int n \<and> int n \<le> right" for n
      proof (cases "int n = right")
        case True
        then have "x4 ! n = x3 ! nat (j3 + 1)" using x4n[of n] by auto
        moreover have "\<not> lt (x3 ! nat (j3 + 1)) t" using B j3 by auto
        ultimately show ?thesis by simp
      next
        case False
        then have "x4 ! n = x3 ! n" using x4n[of n] n by auto
        then show ?thesis using B n by auto
      qed
      ultimately show ?thesis unfolding p using lj w4 by auto
    qed
    show ?thesis
      using res len4 ms4 j3 sem
      by (intro exI[of _ x4] exI[of _ "j3 + 1"]) auto
  qed
qed

section \<open>The selection engine: total correctness\<close>

lemma floydRivestFunc_trivial:
  "\<not> right > left \<Longrightarrow> 0 < fuel \<Longrightarrow> floydRivestFunc fuel samp x left right k lt = Some (Inr x)"
  by (cases fuel) auto

lemma floydRivestFunc_correct:
  assumes "strict_weak_order lt"
    and "sampler_brackets samp (int (length x))" and "sampler_shrinks samp (int (length x))"
    and "0 \<le> left" and "left \<le> k" and "k \<le> right" and "right < int (length x)"
    and "nat (right - left) < fuel"
  shows "\<exists>y. floydRivestFunc fuel samp x left right k lt = Some (Inr y) \<and>
           rearranged x y left right \<and>
           (\<forall>n. left \<le> int n \<and> int n < k \<longrightarrow> \<not> lt (y ! nat k) (y ! n)) \<and>
           (\<forall>n. k < int n \<and> int n \<le> right \<longrightarrow> \<not> lt (y ! n) (y ! nat k))"
  using assms
proof (induction fuel arbitrary: x left right)
  case 0
  then show ?case by simp
next
  case (Suc fuel)
  note swo = \<open>strict_weak_order lt\<close>
  note br = \<open>sampler_brackets samp (int (length x))\<close>
  note sh = \<open>sampler_shrinks samp (int (length x))\<close>
  have bounds: "0 \<le> left" "left \<le> k" "k \<le> right" "right < int (length x)" by fact+
  have fuel: "nat (right - left) < Suc fuel" by fact
  show ?case
  proof (cases "right > left")
    case False
    with bounds have "left = k" "right = k" by auto
    then show ?thesis by (auto simp: rearranged_refl)
  next
    case True
    have pre: "\<exists>x1. (if right - left > 600
               then (case samp left right k of
                       (a, b) \<Rightarrow> floydRivestFunc fuel samp x (max_int left a) (min_int right b) k lt)
               else Some (Inr x)) = Some (Inr x1) \<and> rearranged x x1 left right"
    proof (cases "right - left > 600")
      case False
      then show ?thesis by (simp add: rearranged_refl)
    next
      case big: True
      obtain a b where ab: "samp left right k = (a, b)" by (cases "samp left right k")
      from br bounds big ab have abk: "a \<le> k" "k \<le> b"
        unfolding sampler_brackets_def by (metis fst_conv, metis snd_conv)
      from sh bounds big ab have shr: "left < a \<or> b < right"
        unfolding sampler_shrinks_def by (metis fst_conv snd_conv)
      define nl where "nl = max_int left a"
      define nr where "nr = min_int right b"
      have nb: "left \<le> nl" "nl \<le> k" "k \<le> nr" "nr \<le> right" "nr - nl < right - left"
        using abk shr bounds by (auto simp: nl_def nr_def max_int_def min_int_def)
      then have "nat (nr - nl) < fuel" using fuel by linarith
      from Suc.IH[OF swo br sh _ nb(2) nb(3) _ this] nb bounds
      obtain x1 where "floydRivestFunc fuel samp x nl nr k lt = Some (Inr x1)"
        "rearranged x x1 nl nr" by auto
      then show ?thesis using big ab nb
        by (auto simp: nl_def[symmetric] nr_def[symmetric] intro: rearranged_widen)
    qed
    then obtain x1 where
      x1: "(if right - left > 600
               then (case samp left right k of
                       (a, b) \<Rightarrow> floydRivestFunc fuel samp x (max_int left a) (min_int right b) k lt)
               else Some (Inr x)) = Some (Inr x1)"
      and w1: "rearranged x x1 left right" by blast
    have len1: "length x1 = length x" using w1 by (simp add: rearranged_def)
    from pivot_step_Func_spec[of left k right x1 lt] bounds True len1 swo
    obtain x2 j where
      ps: "pivot_step_Func lt x1 left right k = Inr (x2, j)"
      and len2: "length x2 = length x1"
      and jb: "left \<le> j" "j \<le> right"
      and w12: "rearranged x1 x2 left right"
      and lo: "\<forall>n. left \<le> int n \<and> int n < j \<longrightarrow> \<not> lt (x2 ! nat j) (x2 ! n)"
      and hi: "\<forall>n. j < int n \<and> int n \<le> right \<longrightarrow> \<not> lt (x2 ! n) (x2 ! nat j)"
      by auto
    have w2: "rearranged x x2 left right" using w1 w12 by (rule rearranged_trans)
    have len2x: "length x2 = length x" using len1 len2 by simp
    have unf: "floydRivestFunc (Suc fuel) samp x left right k lt =
        floydRivestFunc fuel samp x2 (if j \<le> k then j + 1 else left)
                    (if k \<le> j then j - 1 else right) k lt"
      using True x1 ps by simp
    have nn: "\<not> lt (x2 ! nat j) (x2 ! nat j)" using swo_irrefl[OF swo] by blast
    have lo': "\<forall>n. left \<le> int n \<and> int n \<le> j \<longrightarrow> \<not> lt (x2 ! nat j) (x2 ! n)"
    proof (intro allI impI)
      fix n assume n: "left \<le> int n \<and> int n \<le> j"
      show "\<not> lt (x2 ! nat j) (x2 ! n)"
      proof (cases "int n = j")
        case True
        then have "nat j = n" by simp
        with nn show ?thesis by simp
      next
        case False
        with n lo show ?thesis by auto
      qed
    qed
    have hi': "\<forall>n. j \<le> int n \<and> int n \<le> right \<longrightarrow> \<not> lt (x2 ! n) (x2 ! nat j)"
    proof (intro allI impI)
      fix n assume n: "j \<le> int n \<and> int n \<le> right"
      show "\<not> lt (x2 ! n) (x2 ! nat j)"
      proof (cases "int n = j")
        case True
        then have "nat j = n" by simp
        with nn show ?thesis by simp
      next
        case False
        with n hi show ?thesis by auto
      qed
    qed
    have kn: "0 \<le> k" using bounds by simp
    consider (eq) "j = k" | (lt) "j < k" | (gt) "k < j" by linarith
    then show ?thesis
    proof cases
      case eq
      have "0 < fuel" using fuel True by linarith
      then have "floydRivestFunc (Suc fuel) samp x left right k lt = Some (Inr x2)"
        unfolding unf using eq by (simp add: floydRivestFunc_trivial)
      then show ?thesis using w2 lo hi eq by auto
    next
      case lt
      have f: "nat (right - (j + 1)) < fuel" using fuel jb lt bounds by linarith
      from Suc.IH[of x2 "j + 1" right, OF swo _ _ _ _ _ _ f] br sh len2x jb lt bounds
      obtain y where
        y: "floydRivestFunc fuel samp x2 (j + 1) right k lt = Some (Inr y)"
        and wy: "rearranged x2 y (j + 1) right"
        and ylo: "\<forall>n. j + 1 \<le> int n \<and> int n < k \<longrightarrow> \<not> lt (y ! nat k) (y ! n)"
        and yhi: "\<forall>n. k < int n \<and> int n \<le> right \<longrightarrow> \<not> lt (y ! n) (y ! nat k)"
        by auto
      have res: "floydRivestFunc (Suc fuel) samp x left right k lt = Some (Inr y)"
        unfolding unf using lt y by simp
      have "rearranged x2 y left right" using wy jb by (auto intro: rearranged_widen)
      with w2 have w: "rearranged x y left right" by (rule rearranged_trans)
      from wy lt bounds kn obtain m where m: "j + 1 \<le> int m" "int m \<le> right" "y ! nat k = x2 ! m"
        unfolding rearranged_def by (metis int_nat_eq less_le_not_le linorder_not_less zle_add1_eq_le)
      have "\<not> lt (y ! nat k) (y ! n)" if n: "left \<le> int n \<and> int n < k" for n
      proof (cases "int n \<le> j")
        case True
        with wy have "y ! n = x2 ! n" unfolding rearranged_def by auto
        moreover have "\<not> lt (x2 ! nat j) (x2 ! n)" using lo' n True by blast
        moreover have "\<not> lt (x2 ! m) (x2 ! nat j)" using hi' m by auto
        ultimately show ?thesis using m(3) swo_ge_trans[OF swo] by metis
      next
        case False
        with n ylo show ?thesis by auto
      qed
      then show ?thesis using res w yhi by blast
    next
      case gt
      have f: "nat (j - 1 - left) < fuel" using fuel jb gt bounds by linarith
      from Suc.IH[of x2 left "j - 1", OF swo _ _ _ _ _ _ f] br sh len2x jb gt bounds
      obtain y where
        y: "floydRivestFunc fuel samp x2 left (j - 1) k lt = Some (Inr y)"
        and wy: "rearranged x2 y left (j - 1)"
        and ylo: "\<forall>n. left \<le> int n \<and> int n < k \<longrightarrow> \<not> lt (y ! nat k) (y ! n)"
        and yhi: "\<forall>n. k < int n \<and> int n \<le> j - 1 \<longrightarrow> \<not> lt (y ! n) (y ! nat k)"
        by auto
      have res: "floydRivestFunc (Suc fuel) samp x left right k lt = Some (Inr y)"
        unfolding unf using gt y by simp
      have "rearranged x2 y left right" using wy jb by (auto intro: rearranged_widen)
      with w2 have w: "rearranged x y left right" by (rule rearranged_trans)
      from wy gt bounds kn obtain m where m: "left \<le> int m" "int m \<le> j - 1" "y ! nat k = x2 ! m"
        unfolding rearranged_def by (metis int_nat_eq less_le_not_le linorder_not_less zle_diff1_eq)
      have "\<not> lt (y ! n) (y ! nat k)" if n: "k < int n \<and> int n \<le> right" for n
      proof (cases "j \<le> int n")
        case True
        with wy have "y ! n = x2 ! n" unfolding rearranged_def by auto
        moreover have "\<not> lt (x2 ! n) (x2 ! nat j)" using hi' n True by blast
        moreover have "\<not> lt (x2 ! nat j) (x2 ! m)" using lo' m by auto
        ultimately show ?thesis using m(3) swo_ge_trans[OF swo] by metis
      next
        case False
        with n yhi show ?thesis by auto
      qed
      then show ?thesis using res w ylo by blast
    qed
  qed
qed

section \<open>The selection engine never indexes out of range\<close>

lemma floydRivestFunc_safe:
  assumes "sampler_brackets samp (int (length x))"
    and "0 \<le> left" and "left \<le> k" and "k \<le> right" and "right < int (length x)"
  shows "floydRivestFunc fuel samp x left right k lt = None \<or>
         (\<exists>y. floydRivestFunc fuel samp x left right k lt = Some (Inr y) \<and>
              length y = length x \<and> mset y = mset x)"
  using assms
proof (induction fuel arbitrary: x left right)
  case 0
  then show ?case by simp
next
  case (Suc fuel)
  note br = \<open>sampler_brackets samp (int (length x))\<close>
  have bounds: "0 \<le> left" "left \<le> k" "k \<le> right" "right < int (length x)" by fact+
  show ?case
  proof (cases "right > left")
    case False
    then show ?thesis by simp
  next
    case True
    let ?pre = "(if right - left > 600
               then (case samp left right k of
                       (a, b) \<Rightarrow> floydRivestFunc fuel samp x (max_int left a) (min_int right b) k lt)
               else Some (Inr x))"
    have pre: "?pre = None \<or> (\<exists>x1. ?pre = Some (Inr x1) \<and> length x1 = length x \<and> mset x1 = mset x)"
    proof (cases "right - left > 600")
      case False
      then show ?thesis by simp
    next
      case big: True
      obtain a b where ab: "samp left right k = (a, b)" by (cases "samp left right k")
      from br bounds big ab have abk: "a \<le> k" "k \<le> b"
        unfolding sampler_brackets_def by (metis fst_conv, metis snd_conv)
      define nl where "nl = max_int left a"
      define nr where "nr = min_int right b"
      have nb: "0 \<le> nl" "nl \<le> k" "k \<le> nr" "nr < int (length x)"
        using abk bounds by (auto simp: nl_def nr_def max_int_def min_int_def)
      from Suc.IH[OF br nb] show ?thesis using big ab
        by (simp add: nl_def[symmetric] nr_def[symmetric])
    qed
    show ?thesis
    proof (cases "?pre = None")
      case True
      with \<open>left < right\<close> show ?thesis by simp
    next
      case False
      with pre obtain x1 where x1: "?pre = Some (Inr x1)"
        and len1: "length x1 = length x" and ms1: "mset x1 = mset x" by blast
      from pivot_step_Func_spec[of left k right x1 lt] bounds True len1
      obtain x2 j where
        ps: "pivot_step_Func lt x1 left right k = Inr (x2, j)"
        and len2: "length x2 = length x1" and ms2: "mset x2 = mset x1"
        and jb: "0 \<le> j" "j \<le> right"
        by auto
      have unf: "floydRivestFunc (Suc fuel) samp x left right k lt =
        floydRivestFunc fuel samp x2 (if j \<le> k then j + 1 else left)
                    (if k \<le> j then j - 1 else right) k lt"
        using True x1 ps by simp
      have br2: "sampler_brackets samp (int (length x2))" using br len1 len2 by simp
      consider (eq) "j = k" | (lt) "j < k" | (gt) "k < j" by linarith
      then show ?thesis
      proof cases
        case eq
        show ?thesis
        proof (cases fuel)
          case 0
          then show ?thesis unfolding unf by simp
        next
          case (Suc f)
          then show ?thesis unfolding unf using eq len1 len2 ms1 ms2 by simp
        qed
      next
        case lt
        from Suc.IH[of x2 "j + 1" right, OF br2] jb lt bounds len1 len2 ms1 ms2
        show ?thesis unfolding unf using lt by auto
      next
        case gt
        from Suc.IH[of x2 left "j - 1", OF br2] jb gt bounds len1 len2 ms1 ms2
        show ?thesis unfolding unf using gt by auto
      qed
    qed
  qed
qed

section \<open>Selection and sorting: consequences\<close>

lemma TopK_eq_Func: "TopK fuel samp x k = TopKFunc fuel samp x k (<)"
  unfolding TopK_def TopKFunc_def floydRivest_eq_Func by (rule refl)

lemma comparison_sort_sort: "comparison_sort (\<lambda>lt. slices_Sort) ((<) :: 'a::linorder \<Rightarrow> 'a \<Rightarrow> bool)"
  by (simp add: comparison_sort_def slices_Sort_def not_less)

lemma sort_prefix_eq_Func: "sort_prefix x m = sort_prefix_Func (\<lambda>lt. slices_Sort) x m (<)"
  by (simp add: sort_prefix_def sort_prefix_Func_def)

lemma Sort_eq_Func: "Sort fuel samp x k = SortFunc fuel samp (\<lambda>lt. slices_Sort) x k (<)"
  unfolding Sort_def SortFunc_def floydRivest_eq_Func sort_prefix_eq_Func by (rule refl)

lemma Sort_clamped_eq_Func:
  "Sort_clamped fuel samp x k = SortFunc_clamped fuel samp (\<lambda>lt. slices_Sort) x k (<)"
  unfolding Sort_clamped_def SortFunc_clamped_def floydRivest_eq_Func sort_prefix_eq_Func
  by (rule refl)

lemma sorted_prefix_short:
  assumes swo: "strict_weak_order lt"
    and m: "m < length y"
    and lo: "\<forall>i. i < m \<longrightarrow> \<not> lt (y ! m) (y ! i)"
    and hi: "\<forall>j. m < j \<and> j < length y \<longrightarrow> \<not> lt (y ! j) (y ! m)"
    and ps: "mset ps = mset (take m y)" and so: "sorted_wrt (\<lambda>a b. \<not> lt b a) ps"
  shows "sorted_wrt (\<lambda>a b. \<not> lt b a) (take (Suc m) (ps @ drop m y)) \<and>
         (\<forall>n. m < n \<and> n < length y \<longrightarrow> \<not> lt ((ps @ drop m y) ! n) ((ps @ drop m y) ! m)) \<and>
         mset (ps @ drop m y) = mset y \<and> (ps @ drop m y) ! m = y ! m"
proof -
  have lps: "length ps = m" using ps m by (metis size_mset length_take min.absorb2 less_imp_le)
  have sps: "set ps = set (take m y)" using ps by (metis set_mset_mset)
  have tk: "take (Suc m) (ps @ drop m y) = ps @ [y ! m]"
    using lps m by (simp add: take_Suc_conv_app_nth)
  have "\<forall>a \<in> set ps. \<not> lt (y ! m) a"
    using sps lo m by (auto simp: in_set_conv_nth)
  then have "sorted_wrt (\<lambda>a b. \<not> lt b a) (ps @ [y ! m])"
    using so by (simp add: sorted_wrt_append)
  moreover have nth: "(ps @ drop m y) ! n = y ! n" if "m \<le> n" "n < length y" for n
    using that lps by (simp add: nth_append)
  moreover have "mset (ps @ drop m y) = mset y"
    using ps by (metis append_take_drop_id mset_append)
  ultimately show ?thesis using tk hi m by auto
qed

lemma sorted_prefix_full:
  assumes swo: "strict_weak_order lt"
    and m: "m < length y"
    and lo: "\<forall>i. i < m \<longrightarrow> \<not> lt (y ! m) (y ! i)"
    and hi: "\<forall>j. m < j \<and> j < length y \<longrightarrow> \<not> lt (y ! j) (y ! m)"
    and ps: "mset ps = mset (take (Suc m) y)" and so: "sorted_wrt (\<lambda>a b. \<not> lt b a) ps"
  shows "sorted_wrt (\<lambda>a b. \<not> lt b a) (take (Suc m) (ps @ drop (Suc m) y)) \<and>
         (\<forall>n. m < n \<and> n < length y \<longrightarrow>
            \<not> lt ((ps @ drop (Suc m) y) ! n) ((ps @ drop (Suc m) y) ! m)) \<and>
         mset (ps @ drop (Suc m) y) = mset y"
proof -
  have lps: "length ps = Suc m"
    using ps m by (metis size_mset length_take min.absorb2 Suc_leI)
  have sps: "set ps = set (take (Suc m) y)" using ps by (metis set_mset_mset)
  have tk: "take (Suc m) (ps @ drop (Suc m) y) = ps" using lps by simp
  have "ps ! m \<in> set (take (Suc m) y)" using sps lps by (metis lessI nth_mem)
  then obtain i where i0: "i < length (take (Suc m) y)" "take (Suc m) y ! i = ps ! m"
    by (auto simp: in_set_conv_nth)
  then have i: "i \<le> m" "ps ! m = y ! i" using m by auto
  have zm: "(ps @ drop (Suc m) y) ! m = y ! i" using lps i by (simp add: nth_append)
  have nth: "(ps @ drop (Suc m) y) ! n = y ! n" if "m < n" "n < length y" for n
    using that lps by (simp add: nth_append)
  have "\<not> lt (y ! n) (y ! i)" if n: "m < n" "n < length y" for n
  proof (cases "i = m")
    case True
    with hi n show ?thesis by simp
  next
    case False
    with i have "\<not> lt (y ! m) (y ! i)" using lo by simp
    moreover have "\<not> lt (y ! n) (y ! m)" using hi n by simp
    ultimately show ?thesis using swo_ge_trans[OF swo] by blast
  qed
  moreover have "mset (ps @ drop (Suc m) y) = mset y"
    using ps by (metis append_take_drop_id mset_append)
  ultimately show ?thesis using tk so zm nth by auto
qed

lemma swo_linorder: "strict_weak_order ((<) :: 'a::linorder \<Rightarrow> 'a \<Rightarrow> bool)"
  by (auto simp: strict_weak_order_def)

lemma select_Func:
  assumes "strict_weak_order lt"
    and "sampler_brackets samp (int (length x))" and "sampler_shrinks samp (int (length x))"
    and "1 \<le> k" and "k \<le> int (length x)" and "length x \<le> fuel"
  shows "\<exists>y. floydRivestFunc fuel samp x 0 (int (length x) - 1) (k - 1) lt = Some (Inr y) \<and>
           length y = length x \<and> mset y = mset x \<and>
           (\<forall>i. int i < k - 1 \<longrightarrow> \<not> lt (y ! nat (k - 1)) (y ! i)) \<and>
           (\<forall>j. k \<le> int j \<and> j < length x \<longrightarrow> \<not> lt (y ! j) (y ! nat (k - 1)))"
proof -
  have f: "nat (int (length x) - 1 - 0) < fuel" using assms(4-6) by linarith
  from floydRivestFunc_correct[OF assms(1-3) _ _ _ _ f, of "k - 1"] assms(4,5)
  obtain y where y: "floydRivestFunc fuel samp x 0 (int (length x) - 1) (k - 1) lt = Some (Inr y)"
    and w: "rearranged x y 0 (int (length x) - 1)"
    and lo: "\<forall>n. 0 \<le> int n \<and> int n < k - 1 \<longrightarrow> \<not> lt (y ! nat (k - 1)) (y ! n)"
    and hi: "\<forall>n. k - 1 < int n \<and> int n \<le> int (length x) - 1 \<longrightarrow> \<not> lt (y ! n) (y ! nat (k - 1))"
    by auto
  from w have "length y = length x" "mset y = mset x" by (auto simp: rearranged_def)
  moreover have "\<forall>j. k \<le> int j \<and> j < length x \<longrightarrow> \<not> lt (y ! j) (y ! nat (k - 1))"
    using hi by auto
  ultimately show ?thesis using y lo by auto
qed

lemma filter_length_mset:
  assumes "mset y = mset s"
  shows "length (filter P y) = length (filter P s)"
proof -
  have "mset (filter P y) = mset (filter P s)" by (simp add: assms)
  then show ?thesis by (metis size_mset)
qed

lemma kth_of_partition:
  assumes swo: "strict_weak_order lt"
    and ms: "mset y = mset s"
    and srt: "sorted_wrt (\<lambda>a b. \<not> lt b a) s"
    and n: "n < length y"
    and lo: "\<forall>i. i < n \<longrightarrow> \<not> lt (y ! n) (y ! i)"
    and hi: "\<forall>j. n < j \<and> j < length y \<longrightarrow> \<not> lt (y ! j) (y ! n)"
  shows "\<not> lt (y ! n) (s ! n) \<and> \<not> lt (s ! n) (y ! n)"
proof -
  define p where "p = y ! n"
  have len: "length s = length y" using ms by (metis size_mset)
  have sle: "\<not> lt (s ! j) (s ! i)" if "i \<le> j" "j < length s" for i j
  proof (cases "i = j")
    case True
    then show ?thesis using swo_irrefl[OF swo] by simp
  next
    case False
    with that srt show ?thesis by (auto simp: sorted_wrt_iff_nth_less)
  qed
  have ysplit: "y = take n y @ y ! n # drop (Suc n) y" using n by (simp add: id_take_nth_drop)
  have "\<not> lt p (s ! n)"
  proof
    assume a: "lt p (s ! n)"
    have "\<forall>e \<in> set (drop n s). lt p e"
    proof
      fix e assume "e \<in> set (drop n s)"
      then obtain j where j: "j < length s - n" "e = s ! (n + j)"
        by (auto simp: in_set_conv_nth)
      then have "\<not> lt (s ! (n + j)) (s ! n)" using sle[of n "n + j"] by simp
      with a swo_ge_trans[OF swo, of p "s ! (n + j)" "s ! n"] j show "lt p e" by blast
    qed
    then have "filter (lt p) (drop n s) = drop n s" by simp
    then have "length (filter (lt p) s) \<ge> length s - n"
      by (metis append_take_drop_id filter_append length_append length_drop le_add2)
    moreover have "\<forall>e \<in> set (take n y). \<not> lt p e"
      using lo n by (auto simp: in_set_conv_nth p_def)
    then have "filter (lt p) (take n y) = []" by simp
    then have "filter (lt p) y = filter (lt p) (drop (Suc n) y)"
      using swo_irrefl[OF swo, of p]
      by (subst ysplit) (simp add: p_def)
    then have "length (filter (lt p) y) \<le> length y - Suc n"
      by (metis length_filter_le length_drop)
    ultimately show False
      using filter_length_mset[OF ms, of "lt p"] len n by simp
  qed
  moreover have "\<not> lt (s ! n) p"
  proof
    assume a: "lt (s ! n) p"
    have "\<forall>e \<in> set (take (Suc n) s). lt e p"
    proof
      fix e assume "e \<in> set (take (Suc n) s)"
      then obtain i where i: "i < Suc n" "i < length s" "e = s ! i"
        by (auto simp: in_set_conv_nth)
      then have "\<not> lt (s ! n) (s ! i)" using sle[of i n] n len by simp
      with a swo_ge_trans[OF swo, of "s ! n" "s ! i" p] i show "lt e p" by blast
    qed
    then have "filter (\<lambda>e. lt e p) (take (Suc n) s) = take (Suc n) s" by simp
    then have "length (filter (\<lambda>e. lt e p) s) \<ge> Suc n"
      using n len
      by (metis append_take_drop_id filter_append length_append length_take le_add1 min.absorb2 Suc_leI)
    moreover have "\<forall>e \<in> set (drop (Suc n) y). \<not> lt e p"
    proof
      fix e assume "e \<in> set (drop (Suc n) y)"
      then obtain j where j: "j < length y - Suc n" "e = y ! (Suc n + j)"
        by (auto simp: in_set_conv_nth)
      then show "\<not> lt e p" using hi by (auto simp: p_def)
    qed
    then have "filter (\<lambda>e. lt e p) (drop (Suc n) y) = []" by simp
    then have "filter (\<lambda>e. lt e p) y = filter (\<lambda>e. lt e p) (take n y)"
      using swo_irrefl[OF swo, of p]
      by (subst ysplit) (simp add: p_def)
    then have "length (filter (\<lambda>e. lt e p) y) \<le> n"
      by (metis length_filter_le length_take min.cobounded2 order_trans)
    ultimately show False
      using filter_length_mset[OF ms, of "\<lambda>e. lt e p"] by simp
  qed
  ultimately show ?thesis by (simp add: p_def)
qed

lemma TopKFunc_select:
  assumes "strict_weak_order lt"
    and "sampler_brackets samp (int (length x))" and "sampler_shrinks samp (int (length x))"
    and "1 \<le> k" and "k \<le> int (length x)" and "length x \<le> fuel"
  shows "\<exists>y. TopKFunc fuel samp x k lt = Some (Inr y) \<and>
           length y = length x \<and> mset y = mset x \<and>
           (\<forall>i. int i < k - 1 \<longrightarrow> \<not> lt (y ! nat (k - 1)) (y ! i)) \<and>
           (\<forall>j. k \<le> int j \<and> j < length x \<longrightarrow> \<not> lt (y ! j) (y ! nat (k - 1)))"
proof -
  have "TopKFunc fuel samp x k lt =
        floydRivestFunc fuel samp x 0 (int (length x) - 1) (k - 1) lt"
    using assms(4,5) by (auto simp: TopKFunc_def min_int_def Let_def)
  with select_Func[OF assms] show ?thesis by simp
qed

lemma TopKFunc_clamp:
  "int (length x) \<le> k \<Longrightarrow> TopKFunc fuel samp x k lt = TopKFunc fuel samp x (int (length x)) lt"
  by (auto simp: TopKFunc_def min_int_def Let_def)

lemma TopKFunc_nonpositive: "k \<le> 0 \<Longrightarrow> TopKFunc fuel samp x k lt = Some (Inr x)"
  by (cases x) (auto simp: TopKFunc_def min_int_def Let_def)

lemma TopKFunc_total:
  assumes "strict_weak_order lt"
    and "sampler_brackets samp (int (length x))" and "sampler_shrinks samp (int (length x))"
    and "length x \<le> fuel"
  shows "\<exists>y. TopKFunc fuel samp x k lt = Some (Inr y) \<and> length y = length x \<and> mset y = mset x"
proof -
  consider "k \<le> 0" | "1 \<le> k" "k \<le> int (length x)" | "int (length x) < k" "x \<noteq> []"
    | "int (length x) < k" "x = []"
    by fastforce
  then show ?thesis
  proof cases
    case 1
    then show ?thesis by (simp add: TopKFunc_nonpositive)
  next
    case 2
    with TopKFunc_select[OF assms(1-3) _ _ assms(4), of k] show ?thesis by blast
  next
    case 3
    then have "1 \<le> int (length x)" by (cases x) auto
    with TopKFunc_select[OF assms(1-3) _ _ assms(4), of "int (length x)"]
      TopKFunc_clamp[of x k fuel samp lt] 3
    show ?thesis by auto
  next
    case 4
    then show ?thesis by (auto simp: TopKFunc_def min_int_def Let_def)
  qed
qed

lemma sample_at_k_brackets: "sampler_brackets sample_at_k n"
  by (simp add: sampler_brackets_def sample_at_k_def)

lemma sample_at_k_shrinks: "sampler_shrinks sample_at_k n"
  by (auto simp: sampler_shrinks_def sample_at_k_def)

lemma swo_greater_int: "strict_weak_order (\<lambda>a b :: int. b < a)"
  by (auto simp: strict_weak_order_def)

lemma kth_native:
  fixes y :: "'a::linorder list"
  assumes "mset y = mset x" and "n < length y"
    and "\<forall>i. i < n \<longrightarrow> \<not> y ! n < y ! i"
    and "\<forall>j. n < j \<and> j < length y \<longrightarrow> \<not> y ! j < y ! n"
  shows "y ! n = sort x ! n"
proof -
  have "mset y = mset (sort x)" using assms(1) by simp
  moreover have "sorted_wrt (\<lambda>a b :: 'a. \<not> b < a) (sort x)" by (simp add: not_less)
  ultimately have "\<not> y ! n < sort x ! n \<and> \<not> sort x ! n < y ! n"
    using kth_of_partition[OF swo_linorder _ _ assms(2-4)] by blast
  then show ?thesis by auto
qed

lemma TopKFunc_selects_all:
  assumes "strict_weak_order lt"
    and "sampler_brackets samp (int (length x))" and "sampler_shrinks samp (int (length x))"
    and "int (length x) \<le> k" and "length x \<le> fuel"
  shows "\<exists>y. TopKFunc fuel samp x k lt = Some (Inr y) \<and> length y = length x \<and>
           mset y = mset x \<and> (\<forall>i. i < length x \<longrightarrow> \<not> lt (y ! (length x - 1)) (y ! i))"
proof (cases "x = []")
  case True
  then show ?thesis by (simp add: TopKFunc_def min_int_def)
next
  case False
  then have l: "1 \<le> int (length x)" by (cases x) auto
  from TopKFunc_select[OF assms(1-3) l _ assms(5)]
  obtain y where y: "TopKFunc fuel samp x (int (length x)) lt = Some (Inr y)"
    and len: "length y = length x" and ms: "mset y = mset x"
    and lo: "\<forall>i. int i < int (length x) - 1 \<longrightarrow> \<not> lt (y ! nat (int (length x) - 1)) (y ! i)"
    by auto
  have e: "nat (int (length x) - 1) = length x - 1" by simp
  have "\<not> lt (y ! (length x - 1)) (y ! i)" if "i < length x" for i
  proof (cases "i = length x - 1")
    case True
    then show ?thesis using swo_irrefl[OF assms(1)] by simp
  next
    case False
    with that have "int i < int (length x) - 1" by auto
    with lo e show ?thesis by auto
  qed
  with y len ms TopKFunc_clamp[OF assms(4), of fuel samp lt] show ?thesis by auto
qed

lemma comparison_sortD:
  assumes "comparison_sort srt lt"
  shows "mset (srt lt xs) = mset xs" and "sorted_wrt (\<lambda>a b. \<not> lt b a) (srt lt xs)"
  using assms by (simp_all add: comparison_sort_def)

lemma SortFunc_select:
  assumes "strict_weak_order lt"
    and "sampler_brackets samp (int (length x))" and "sampler_shrinks samp (int (length x))"
    and cs: "comparison_sort srt lt"
    and k: "1 \<le> k" "k \<le> int (length x)" and "length x \<le> fuel"
  shows "\<exists>z. SortFunc fuel samp srt x k lt = Some (Inr z) \<and> mset z = mset x \<and>
           sorted_wrt (\<lambda>a b. \<not> lt b a) (take (nat k) z) \<and>
           (\<forall>n. k \<le> int n \<and> n < length x \<longrightarrow> \<not> lt (z ! n) (z ! nat (k - 1)))"
proof -
  from select_Func[OF assms(1-3) k assms(7)]
  obtain y where y: "floydRivestFunc fuel samp x 0 (int (length x) - 1) (k - 1) lt = Some (Inr y)"
    and len: "length y = length x"  and ms: "mset y = mset x"
    and lo: "\<forall>i. int i < k - 1 \<longrightarrow> \<not> lt (y ! nat (k - 1)) (y ! i)"
    and hi: "\<forall>j. k \<le> int j \<and> j < length x \<longrightarrow> \<not> lt (y ! j) (y ! nat (k - 1))"
    by blast
  define m where "m = nat (k - 1)"
  define z where "z = srt lt (take m y) @ drop m y"
  have m: "m < length y" "Suc m = nat k" using k len by (auto simp: m_def)
  have "sort_prefix_Func srt y (k - 1) lt = Inr z"
    using k len by (simp add: sort_prefix_Func_def z_def m_def)
  moreover have "min_int k (int (length x)) = k" using k by (simp add: min_int_def)
  ultimately have res: "SortFunc fuel samp srt x k lt = Some (Inr z)"
    unfolding SortFunc_def Let_def using k y by simp
  have lo': "\<forall>i. i < m \<longrightarrow> \<not> lt (y ! m) (y ! i)" using lo by (auto simp: m_def)
  have hi': "\<forall>j. m < j \<and> j < length y \<longrightarrow> \<not> lt (y ! j) (y ! m)"
    using hi len by (auto simp: m_def)
  note sp = sorted_prefix_short[OF assms(1) m(1) lo' hi' comparison_sortD[OF cs], folded z_def]
  from sp have "sorted_wrt (\<lambda>a b. \<not> lt b a) (take (Suc m) z)"
    and "\<forall>n. m < n \<and> n < length y \<longrightarrow> \<not> lt (z ! n) (z ! m)"
    and "mset z = mset y"
    by blast+
  then show ?thesis using res ms m(2) len k by (auto simp: m_def)
qed

lemma SortFunc_clamped_select:
  assumes "strict_weak_order lt"
    and "sampler_brackets samp (int (length x))" and "sampler_shrinks samp (int (length x))"
    and cs: "comparison_sort srt lt"
    and k: "1 \<le> k" "k \<le> int (length x)" and "length x \<le> fuel"
  shows "\<exists>z. SortFunc_clamped fuel samp srt x k lt = Some (Inr z) \<and> mset z = mset x \<and>
           sorted_wrt (\<lambda>a b. \<not> lt b a) (take (nat k) z) \<and>
           (\<forall>n. k \<le> int n \<and> n < length x \<longrightarrow> \<not> lt (z ! n) (z ! nat (k - 1)))"
proof -
  from select_Func[OF assms(1-3) k assms(7)]
  obtain y where y: "floydRivestFunc fuel samp x 0 (int (length x) - 1) (k - 1) lt = Some (Inr y)"
    and len: "length y = length x"  and ms: "mset y = mset x"
    and lo: "\<forall>i. int i < k - 1 \<longrightarrow> \<not> lt (y ! nat (k - 1)) (y ! i)"
    and hi: "\<forall>j. k \<le> int j \<and> j < length x \<longrightarrow> \<not> lt (y ! j) (y ! nat (k - 1))"
    by blast
  define m where "m = nat (k - 1)"
  define z where "z = srt lt (take (Suc m) y) @ drop (Suc m) y"
  have m: "m < length y" "Suc m = nat k" using k len by (auto simp: m_def)
  have "sort_prefix_Func srt y k lt = Inr z"
    using k len m(2) by (simp add: sort_prefix_Func_def z_def)
  moreover have "min_int (max_int k 1) (int (length x)) = k"
    using k by (simp add: min_int_def max_int_def)
  ultimately have res: "SortFunc_clamped fuel samp srt x k lt = Some (Inr z)"
    unfolding SortFunc_clamped_def Let_def using y by simp
  have lo': "\<forall>i. i < m \<longrightarrow> \<not> lt (y ! m) (y ! i)" using lo by (auto simp: m_def)
  have hi': "\<forall>j. m < j \<and> j < length y \<longrightarrow> \<not> lt (y ! j) (y ! m)"
    using hi len by (auto simp: m_def)
  note sp = sorted_prefix_full[OF assms(1) m(1) lo' hi' comparison_sortD[OF cs], folded z_def]
  from sp have "sorted_wrt (\<lambda>a b. \<not> lt b a) (take (Suc m) z)"
    and "\<forall>n. m < n \<and> n < length y \<longrightarrow> \<not> lt (z ! n) (z ! m)"
    and "mset z = mset y"
    by blast+
  then show ?thesis using res ms m(2) len k by (auto simp: m_def)
qed

lemma SortFunc_nonpositive: "k \<le> 0 \<Longrightarrow> SortFunc fuel samp srt x k lt = Some (Inr x)"
  by (cases x) (auto simp: SortFunc_def min_int_def Let_def)

lemma SortFunc_clamp_k:
  "SortFunc fuel samp srt x k lt = SortFunc fuel samp srt x (min_int k (int (length x))) lt"
  by (simp add: SortFunc_def min_int_def Let_def)

lemma SortFunc_clamped_clamp_k:
  "SortFunc_clamped fuel samp srt x k lt =
   SortFunc_clamped fuel samp srt x (min_int (max_int k 1) (int (length x))) lt"
  by (simp add: SortFunc_clamped_def min_int_def max_int_def Let_def)

lemma SortFunc_total:
  assumes "strict_weak_order lt"
    and "sampler_brackets samp (int (length x))" and "sampler_shrinks samp (int (length x))"
    and "comparison_sort srt lt" and "length x \<le> fuel"
  shows "\<exists>z. SortFunc fuel samp srt x k lt = Some (Inr z) \<and> mset z = mset x"
proof (cases "min_int k (int (length x)) \<le> 0")
  case True
  then show ?thesis
    using SortFunc_clamp_k[of fuel samp srt x k lt] by (simp add: SortFunc_nonpositive)
next
  case False
  then have "1 \<le> min_int k (int (length x))" "min_int k (int (length x)) \<le> int (length x)"
    by (auto simp: min_int_def)
  from SortFunc_select[OF assms(1-4) this assms(5)] show ?thesis
    using SortFunc_clamp_k[of fuel samp srt x k lt] by auto
qed

lemma SortFunc_clamped_total:
  assumes "strict_weak_order lt"
    and "sampler_brackets samp (int (length x))" and "sampler_shrinks samp (int (length x))"
    and cs: "comparison_sort srt lt" and "length x < fuel"
  shows "\<exists>z. SortFunc_clamped fuel samp srt x k lt = Some (Inr z) \<and> mset z = mset x"
proof (cases "x = []")
  case True
  have "floydRivestFunc fuel samp [] 0 (- 1) (- 1) lt = Some (Inr [])"
    using assms(5) by (simp add: floydRivestFunc_trivial)
  moreover have "srt lt [] = []" using comparison_sortD(1)[OF cs, of "[]"] by simp
  ultimately show ?thesis using True
    by (simp add: SortFunc_clamped_def min_int_def max_int_def sort_prefix_Func_def)
next
  case False
  then have "1 \<le> int (length x)" by (cases x) auto
  then have "1 \<le> min_int (max_int k 1) (int (length x))"
    "min_int (max_int k 1) (int (length x)) \<le> int (length x)"
    by (auto simp: min_int_def max_int_def)
  from SortFunc_clamped_select[OF assms(1-4) this less_imp_le[OF assms(5)]] show ?thesis
    using SortFunc_clamped_clamp_k[of fuel samp srt x k lt] by auto
qed

lemma SortFunc_clamped_nonpositive:
  assumes "strict_weak_order lt"
    and "sampler_brackets samp (int (length x))" and "sampler_shrinks samp (int (length x))"
    and "comparison_sort srt lt" and "length x \<le> fuel" and "x \<noteq> []" and "k \<le> 0"
  shows "\<exists>z. SortFunc_clamped fuel samp srt x k lt = Some (Inr z) \<and> mset z = mset x \<and>
           (\<forall>n. n < length x \<longrightarrow> \<not> lt (z ! n) (z ! 0))"
proof -
  have l: "(1::int) \<le> 1" "1 \<le> int (length x)" using assms(6) by (cases x; simp)+
  then have e: "min_int (max_int k 1) (int (length x)) = 1"
    using assms(7) by (auto simp: min_int_def max_int_def)
  from SortFunc_clamped_select[OF assms(1-4) l assms(5)]
  obtain z where z: "SortFunc_clamped fuel samp srt x 1 lt = Some (Inr z)" "mset z = mset x"
    and hi: "\<forall>n. 1 \<le> int n \<and> n < length x \<longrightarrow> \<not> lt (z ! n) (z ! nat (1 - 1))"
    by blast
  have "\<not> lt (z ! n) (z ! 0)" if "n < length x" for n
  proof (cases n)
    case 0
    then show ?thesis using swo_irrefl[OF assms(1)] by simp
  next
    case (Suc n')
    with hi that show ?thesis by auto
  qed
  then show ?thesis using z SortFunc_clamped_clamp_k[of fuel samp srt x k lt] e by auto
qed

lemma comparison_sort_descending: "comparison_sort sort_descending (\<lambda>a b :: int. b < a)"
  by (simp add: comparison_sort_def sort_descending_def sorted_wrt_rev not_less)

section \<open>The sample window: what the formulas give over the reals\<close>

lemma sample_size_facts:
  fixes n :: real
  assumes n: "602 \<le> n"
  defines "z \<equiv> ln n" and "s \<equiv> 0.5 * exp (2 * ln n / 3)"
  shows "1 \<le> z" and "z \<le> s - 4" and "s \<le> n / 2" and "24 \<le> s"
proof -
  define m where "m = exp (z / 3)"
  have mpos: "0 < m" by (simp add: m_def)
  have m3: "m ^ 3 = n"
  proof -
    have "m ^ 3 = exp (of_nat 3 * (z / 3))" unfolding m_def by (rule exp_of_nat_mult[symmetric])
    also have "\<dots> = exp z" by simp
    also have "\<dots> = n" using n by (simp add: z_def)
    finally show ?thesis .
  qed
  have m2: "exp (2 * ln n / 3) = m ^ 2"
  proof -
    have "m ^ 2 = exp (of_nat 2 * (z / 3))" unfolding m_def by (rule exp_of_nat_mult[symmetric])
    also have "\<dots> = exp (2 * ln n / 3)" by (simp add: z_def)
    finally show ?thesis by simp
  qed
  have s: "s = m ^ 2 / 2" by (simp add: s_def m2)
  have m7: "7 < m"
  proof (rule ccontr)
    assume "\<not> 7 < m"
    then have "m \<le> 7" by simp
    then have "m ^ 3 \<le> 7 ^ 3" using mpos by (intro power_mono) auto
    with m3 n show False by simp
  qed
  have "exp 1 \<le> (3::real)" by (rule exp_le)
  then have "exp 1 \<le> n" using n by linarith
  then show "1 \<le> z" using n by (simp add: z_def ln_ge_iff)
  have "ln m \<le> m - 1" using mpos by (rule ln_le_minus_one)
  moreover have "z = 3 * ln m" by (simp add: m_def)
  ultimately have z3: "z \<le> 3 * m - 3" by simp
  have "0 \<le> (m - 7) * (m + 1)" using m7 by (intro mult_nonneg_nonneg) auto
  then have q: "6 * m + 7 \<le> m ^ 2" by (simp add: algebra_simps power2_eq_square)
  show "z \<le> s - 4" using z3 q s by simp
  have "m ^ 2 * 1 \<le> m ^ 2 * m" using m7 by (intro mult_left_mono) auto
  then have "m ^ 2 \<le> m ^ 3" by (simp add: power3_eq_cube power2_eq_square)
  then show "s \<le> n / 2" using s m3 by simp
  have "7 * 7 \<le> m * m" using m7 by (intro mult_mono) auto
  then show "24 \<le> s" using s by (simp add: power2_eq_square)
qed

lemma sample_deviation_facts:
  fixes n :: real
  assumes n: "602 \<le> n"
  defines "z \<equiv> ln n" and "s \<equiv> 0.5 * exp (2 * ln n / 3)"
  defines "d \<equiv> 0.5 * sqrt (z * s * (n - s) / n)"
  shows "1 \<le> d" and "d \<le> s / 2 - 1"
proof -
  note f = sample_size_facts[OF n, folded z_def s_def]
  define q where "q = (n - s) / n"
  have q: "1 / 2 \<le> q" "q \<le> 1" using f(3,4) n by (simp_all add: q_def field_simps)
  have w: "z * s * (n - s) / n = z * s * q" by (simp add: q_def)
  have zs: "0 \<le> z * s" using f by simp
  have "z * s * (1 / 2) \<le> z * s * q" using q(1) zs by (rule mult_left_mono)
  moreover have "1 * 24 \<le> z * s" using f(1,4) by (intro mult_mono) auto
  ultimately have "2\<^sup>2 \<le> z * s * q" by simp
  then have "2 \<le> sqrt (z * s * q)" by (rule real_le_rsqrt)
  then show "1 \<le> d" by (simp add: d_def w)
  have "z * s * q \<le> z * s * 1" using q(2) zs by (rule mult_left_mono)
  moreover have "z * s \<le> (s - 4) * s" using f(2,4) by (intro mult_right_mono) auto
  moreover have "(s - 4) * s \<le> (s - 2)\<^sup>2" by (simp add: power2_eq_square algebra_simps)
  ultimately have "z * s * q \<le> (s - 2)\<^sup>2" by linarith
  moreover have "0 \<le> s - 2" using f(4) by simp
  ultimately have "sqrt (z * s * q) \<le> s - 2" by (intro real_le_lsqrt) auto
  then show "d \<le> s / 2 - 1" by (simp add: d_def w)
qed

lemma sample_window_facts:
  assumes "l \<le> k" and "k \<le> r" and "r - l > 600"
  shows "fst (sample_window l r k) \<le> real_of_int k - 1"
    and "real_of_int k + 1 \<le> snd (sample_window l r k)"
    and "snd (sample_window l r k) - fst (sample_window l r k) \<le> real_of_int (r - l + 1) / 2"
proof -
  define n where "n = real_of_int (r - l + 1)"
  define i where "i = real_of_int (k - l + 1)"
  define s where "s = 0.5 * exp (2 * ln n / 3)"
  define d where "d = 0.5 * sqrt (ln n * s * (n - s) / n)"
  define g where "g = real_of_int (sign (i - n / 2))"
  have n: "602 \<le> n" using assms by (simp add: n_def)
  have i: "1 \<le> i" "i \<le> n" using assms by (simp_all add: i_def n_def)
  note sz = sample_size_facts[OF n, folded s_def]
  note dv = sample_deviation_facts[OF n, folded s_def, folded d_def]
  have fst_eq: "fst (sample_window l r k) = real_of_int k - i * s / n + d * g"
    and snd_eq: "snd (sample_window l r k) = real_of_int k + (n - i) * s / n + d * g"
    by (simp_all add: sample_window_def Let_def n_def i_def s_def d_def g_def)
  have npos: "0 < n" using n by simp
  have spos: "0 \<le> s" using sz(4) by simp
  have low: "0 \<le> i * s / n" using i spos npos by simp
  have high: "0 \<le> (n - i) * s / n" using i spos npos by simp
  have "snd (sample_window l r k) - fst (sample_window l r k) = s"
    unfolding fst_eq snd_eq using npos by (simp add: field_simps)
  then show "snd (sample_window l r k) - fst (sample_window l r k) \<le> real_of_int (r - l + 1) / 2"
    using sz(3) by (simp add: n_def)
  show "fst (sample_window l r k) \<le> real_of_int k - 1"
  proof (cases "i - n / 2 < 0")
    case True
    then have "d * g = - d" by (simp add: g_def sign_def)
    then show ?thesis unfolding fst_eq using low dv(1) by linarith
  next
    case False
    then have g: "d * g = d" by (simp add: g_def sign_def)
    have "1 / 2 \<le> i / n" using False npos by (simp add: field_simps)
    then have "1 / 2 * s \<le> i / n * s" using spos by (rule mult_right_mono)
    then have "s / 2 \<le> i * s / n" by simp
    then show ?thesis unfolding fst_eq using g dv(2) by linarith
  qed
  show "real_of_int k + 1 \<le> snd (sample_window l r k)"
  proof (cases "i - n / 2 < 0")
    case True
    then have g: "d * g = - d" by (simp add: g_def sign_def)
    have "1 / 2 \<le> (n - i) / n" using True npos by (simp add: field_simps)
    then have "1 / 2 * s \<le> (n - i) / n * s" using spos by (rule mult_right_mono)
    then have "s / 2 \<le> (n - i) * s / n" by simp
    then show ?thesis unfolding snd_eq using g dv(2) by linarith
  next
    case False
    then have "d * g = d" by (simp add: g_def sign_def)
    then show ?thesis unfolding snd_eq using high dv(1) by linarith
  qed
qed

lemma sampler_accurate_brackets:
  assumes "sampler_accurate samp n"
  shows "sampler_brackets samp n"
  unfolding sampler_brackets_def
proof (intro allI impI)
  fix l r k
  assume c: "0 \<le> l \<and> l \<le> k \<and> k \<le> r \<and> r < n \<and> r - l > 600"
  with assms obtain lo hi where
    lo: "\<bar>lo - fst (sample_window l r k)\<bar> \<le> 1" and hi: "\<bar>hi - snd (sample_window l r k)\<bar> \<le> 1"
    and e: "samp l r k = (\<lfloor>lo\<rfloor>, \<lfloor>hi\<rfloor>)"
    unfolding sampler_accurate_def by blast
  from c have c': "l \<le> k" "k \<le> r" "r - l > 600" by auto
  note w = sample_window_facts(1,2)[OF c']
  have "lo \<le> real_of_int k" using lo w(1) by linarith
  then have "\<lfloor>lo\<rfloor> \<le> k" by (simp add: floor_le_iff)
  moreover have "real_of_int k \<le> hi" using hi w(2) by linarith
  then have "k \<le> \<lfloor>hi\<rfloor>" by (simp add: le_floor_iff)
  ultimately show "fst (samp l r k) \<le> k \<and> k \<le> snd (samp l r k)" by (simp add: e)
qed

lemma sampler_accurate_shrinks:
  assumes "sampler_accurate samp n"
  shows "sampler_shrinks samp n"
  unfolding sampler_shrinks_def
proof (intro allI impI)
  fix l r k
  assume c: "0 \<le> l \<and> l \<le> k \<and> k \<le> r \<and> r < n \<and> r - l > 600"
  with assms obtain lo hi where
    lo: "\<bar>lo - fst (sample_window l r k)\<bar> \<le> 1" and hi: "\<bar>hi - snd (sample_window l r k)\<bar> \<le> 1"
    and e: "samp l r k = (\<lfloor>lo\<rfloor>, \<lfloor>hi\<rfloor>)"
    unfolding sampler_accurate_def by blast
  from c have c': "l \<le> k" "k \<le> r" "r - l > 600" by auto
  note w = sample_window_facts(3)[OF c']
  have "l < \<lfloor>lo\<rfloor> \<or> \<lfloor>hi\<rfloor> < r"
  proof (rule ccontr)
    assume "\<not> (l < \<lfloor>lo\<rfloor> \<or> \<lfloor>hi\<rfloor> < r)"
    then have a: "\<lfloor>lo\<rfloor> \<le> l" "r \<le> \<lfloor>hi\<rfloor>" by auto
    have "lo < real_of_int \<lfloor>lo\<rfloor> + 1" by linarith
    with a(1) have "lo < real_of_int l + 1" by linarith
    moreover have "real_of_int \<lfloor>hi\<rfloor> \<le> hi" by linarith
    with a(2) have "real_of_int r \<le> hi" by linarith
    moreover have "hi - lo \<le> real_of_int (r - l + 1) / 2 + 2" using lo hi w by linarith
    then have "hi - lo \<le> (real_of_int r - real_of_int l + 1) / 2 + 2" by simp
    moreover have "real_of_int 600 < real_of_int (r - l)" using c by (simp only: of_int_less_iff)
    then have "600 < real_of_int r - real_of_int l" by simp
    ultimately show False by argo
  qed
  then show "l < fst (samp l r k) \<or> snd (samp l r k) < r" by (simp add: e)
qed

lemma exact_sampler_accurate: "sampler_accurate exact_sampler n"
  unfolding sampler_accurate_def
proof (intro allI impI)
  fix l r k
  have "\<bar>fst (sample_window l r k) - fst (sample_window l r k)\<bar> \<le> 1 \<and>
        \<bar>snd (sample_window l r k) - snd (sample_window l r k)\<bar> \<le> 1 \<and>
        exact_sampler l r k = (\<lfloor>fst (sample_window l r k)\<rfloor>, \<lfloor>snd (sample_window l r k)\<rfloor>)"
    by (simp add: exact_sampler_def)
  then show "\<exists>lo hi. \<bar>lo - fst (sample_window l r k)\<bar> \<le> 1 \<and>
                 \<bar>hi - snd (sample_window l r k)\<bar> \<le> 1 \<and>
                 exact_sampler l r k = (\<lfloor>lo\<rfloor>, \<lfloor>hi\<rfloor>)"
    by blast
qed

section \<open>The parametrised native engine and the callback engine\<close>

lemma partition_loop_Func_mset:
  "partition_loop_Func lt t x i j = Inr (x', i', j') \<Longrightarrow> mset x' = mset x"
proof (induction lt t x i j rule: partition_loop_Func.induct)
  case (1 lt t x i j)
  show ?case
  proof (cases "i < j")
    case False
    with "1.prems" show ?thesis by (subst (asm) partition_loop_Func.simps) simp
  next
    case True
    from "1.prems" True obtain x1 i1 j1 where
      sw: "swap x i j = Inr x1" and i1: "advance_i_Func lt x1 t (i + 1) = Inr i1"
      and j1: "retreat_j_Func lt x1 t (j - 1) = Inr j1"
      and r: "partition_loop_Func lt t x1 i1 j1 = Inr (x', i', j')"
      by (subst (asm) partition_loop_Func.simps) (auto split: sum.splits)
    from "1.IH"[OF True sw i1 j1 r] swap_mset[OF sw] show ?thesis by simp
  qed
qed

lemma pivot_step_Ordered_eq_Func:
  assumes "\<forall>a\<in>set x. \<forall>b\<in>set x. eq a b \<longleftrightarrow> \<not> (lt a b \<or> lt b a)"
  shows "pivot_step_Ordered lt eq x left right k = pivot_step_Func lt x left right k"
proof (cases "index x k")
  case (Inl e)
  then show ?thesis by (simp add: pivot_step_Ordered_def pivot_step_Func_def)
next
  case t: (Inr t)
  then have tx: "t \<in> set x" by (auto simp: index_Inr in_range_def)
  show ?thesis
  proof (cases "swap x left k")
    case (Inl e)
    with t show ?thesis by (simp add: pivot_step_Ordered_def pivot_step_Func_def)
  next
    case x1: (Inr x1)
    have m1: "mset x1 = mset x" using x1 by (rule swap_mset)
    show ?thesis
    proof (cases "index x1 right")
      case (Inl e)
      with t x1 show ?thesis by (simp add: pivot_step_Ordered_def pivot_step_Func_def)
    next
      case xr: (Inr xr)
      show ?thesis
      proof (cases "if lt t xr then swap x1 left right else Inr x1")
        case (Inl e)
        with t x1 xr show ?thesis by (simp add: pivot_step_Ordered_def pivot_step_Func_def)
      next
        case x2: (Inr x2)
        have m2: "mset x2 = mset x1" using x2 swap_mset by (auto split: if_splits)
        show ?thesis
        proof (cases "partition_loop_Func lt t x2 left right")
          case (Inl e)
          with t x1 xr x2 show ?thesis
            by (simp add: pivot_step_Ordered_def pivot_step_Func_def partition_loop_Ordered_eq_Func)
        next
          case (Inr res)
          obtain x3 i j where res: "res = (x3, i, j)" by (cases res)
          note lp = Inr[unfolded res]
          have m3: "mset x3 = mset x2" using lp by (rule partition_loop_Func_mset)
          show ?thesis
          proof (cases "index x3 left")
            case (Inl e)
            with t x1 xr x2 lp show ?thesis
              by (simp add: pivot_step_Ordered_def pivot_step_Func_def
                    partition_loop_Ordered_eq_Func)
          next
            case xl: (Inr xl)
            then have "xl \<in> set x3" by (auto simp: index_Inr in_range_def)
            moreover have "set x3 = set x" using m1 m2 m3 by (metis set_mset_mset)
            ultimately have "eq xl t \<longleftrightarrow> \<not> (lt xl t \<or> lt t xl)" using assms tx by blast
            with t x1 xr x2 lp xl show ?thesis
              by (simp add: pivot_step_Ordered_def pivot_step_Func_def
                    partition_loop_Ordered_eq_Func)
          qed
        qed
      qed
    qed
  qed
qed

lemma pivot_step_Func_mset:
  assumes "pivot_step_Func lt x left right k = Inr (y, j)"
  shows "mset y = mset x"
proof -
  note a = assms[unfolded pivot_step_Func_def]
  from a obtain t where t: "index x k = Inr t" by (cases "index x k") auto
  from a t obtain x1 where x1: "swap x left k = Inr x1" by (cases "swap x left k") auto
  from a t x1 obtain xr where xr: "index x1 right = Inr xr" by (cases "index x1 right") auto
  from a t x1 xr obtain x2 where x2: "(if lt t xr then swap x1 left right else Inr x1) = Inr x2"
    by (cases "if lt t xr then swap x1 left right else Inr x1") auto
  from a t x1 xr x2 obtain x3 i j3 where
    lp: "partition_loop_Func lt t x2 left right = Inr (x3, i, j3)"
    by (cases "partition_loop_Func lt t x2 left right") auto
  from a t x1 xr x2 lp obtain xl where xl: "index x3 left = Inr xl"
    by (cases "index x3 left") auto
  have y: "swap x3 left j3 = Inr y \<or> swap x3 (j3 + 1) right = Inr y"
  proof (cases "\<not> (lt xl t \<or> lt t xl)")
    case True
    with a t x1 xr x2 lp xl show ?thesis by (cases "swap x3 left j3") auto
  next
    case False
    with a t x1 xr x2 lp xl show ?thesis by (cases "swap x3 (j3 + 1) right") auto
  qed
  have "mset x1 = mset x" using x1 by (rule swap_mset)
  moreover have "mset x2 = mset x1" using x2 swap_mset by (auto split: if_splits)
  moreover have "mset x3 = mset x2" using lp by (rule partition_loop_Func_mset)
  moreover have "mset y = mset x3" using y swap_mset by blast
  ultimately show ?thesis by simp
qed

lemma floydRivestFunc_mset:
  "floydRivestFunc fuel samp x left right k lt = Some (Inr y) \<Longrightarrow> mset y = mset x"
proof (induction fuel arbitrary: x left right y)
  case 0
  then show ?case by simp
next
  case (Suc fuel)
  show ?case
  proof (cases "right > left")
    case False
    with Suc.prems show ?thesis by simp
  next
    case True
    let ?pre = "(if right - left > 600
               then (case samp left right k of
                       (a, b) \<Rightarrow> floydRivestFunc fuel samp x (max_int left a) (min_int right b) k lt)
               else Some (Inr x))"
    from Suc.prems True obtain x1 x2 j where
      pre: "?pre = Some (Inr x1)"
      and ps: "pivot_step_Func lt x1 left right k = Inr (x2, j)"
      and rest: "floydRivestFunc fuel samp x2 (if j \<le> k then j + 1 else left)
                    (if k \<le> j then j - 1 else right) k lt = Some (Inr y)"
      by (auto split: option.splits sum.splits prod.splits if_splits)
    have "mset x1 = mset x"
    proof (cases "right - left > 600")
      case False
      with pre show ?thesis by simp
    next
      case True
      with pre show ?thesis by (auto split: prod.splits dest: Suc.IH)
    qed
    moreover have "mset x2 = mset x1" using ps by (rule pivot_step_Func_mset)
    moreover have "mset y = mset x2" using rest by (rule Suc.IH)
    ultimately show ?thesis by simp
  qed
qed

lemma floydRivest_Ordered_eq_Func:
  assumes "\<forall>a\<in>set x. \<forall>b\<in>set x. eq a b \<longleftrightarrow> \<not> (lt a b \<or> lt b a)"
  shows "floydRivest_Ordered fuel samp lt eq x left right k =
         floydRivestFunc fuel samp x left right k lt"
  using assms
proof (induction fuel arbitrary: x left right)
  case 0
  show ?case by simp
next
  case (Suc fuel)
  note c = Suc.prems
  show ?case
  proof (cases "right > left")
    case False
    then show ?thesis by simp
  next
    case True
    let ?preO = "(if right - left > 600
               then (case samp left right k of
                       (a, b) \<Rightarrow>
                         floydRivest_Ordered fuel samp lt eq x (max_int left a) (min_int right b) k)
               else Some (Inr x))"
    let ?preF = "(if right - left > 600
               then (case samp left right k of
                       (a, b) \<Rightarrow> floydRivestFunc fuel samp x (max_int left a) (min_int right b) k lt)
               else Some (Inr x))"
    have pre: "?preO = ?preF" by (simp add: Suc.IH[OF c] split: prod.splits)
    show ?thesis
    proof (cases ?preF)
      case None
      with pre True show ?thesis by simp
    next
      case (Some r)
      show ?thesis
      proof (cases r)
        case (Inl e)
        with Some pre True show ?thesis by simp
      next
        case (Inr x1)
        have "mset x1 = mset x"
        proof (cases "right - left > 600")
          case False
          with Some Inr show ?thesis by simp
        next
          case True
          with Some Inr show ?thesis by (auto split: prod.splits dest: floydRivestFunc_mset)
        qed
        then have s1: "set x1 = set x" by (metis set_mset_mset)
        with c have c1: "\<forall>a\<in>set x1. \<forall>b\<in>set x1. eq a b \<longleftrightarrow> \<not> (lt a b \<or> lt b a)" by simp
        have ps: "pivot_step_Ordered lt eq x1 left right k = pivot_step_Func lt x1 left right k"
          using c1 by (rule pivot_step_Ordered_eq_Func)
        show ?thesis
        proof (cases "pivot_step_Func lt x1 left right k")
          case (Inl e)
          with Some Inr pre ps True show ?thesis by simp
        next
          case r2: (Inr res)
          obtain x2 j where res: "res = (x2, j)" by (cases res)
          have "mset x2 = mset x1" using r2[unfolded res] by (rule pivot_step_Func_mset)
          then have "set x2 = set x1" by (metis set_mset_mset)
          with c1 have c2: "\<forall>a\<in>set x2. \<forall>b\<in>set x2. eq a b \<longleftrightarrow> \<not> (lt a b \<or> lt b a)" by simp
          from Some Inr pre ps r2 res True Suc.IH[OF c2] show ?thesis by simp
        qed
      qed
    qed
  qed
qed

lemma TopK_Ordered_eq_Func:
  assumes "\<forall>a\<in>set x. \<forall>b\<in>set x. eq a b \<longleftrightarrow> \<not> (lt a b \<or> lt b a)"
  shows "TopK_Ordered fuel samp lt eq x k = TopKFunc fuel samp x k lt"
  unfolding TopK_Ordered_def TopKFunc_def floydRivest_Ordered_eq_Func[OF assms] by (rule refl)

lemma pivot_step_eq_Ordered: "pivot_step x left right k = pivot_step_Ordered (<) (=) x left right k"
  unfolding pivot_step_def pivot_step_Ordered_def partition_loop_eq_Func
    partition_loop_Ordered_eq_Func by (rule refl)

lemma floydRivest_eq_Ordered:
  "floydRivest fuel samp x left right k = floydRivest_Ordered fuel samp (<) (=) x left right k"
proof (induction fuel arbitrary: x left right)
  case 0
  show ?case by simp
next
  case (Suc fuel)
  show ?case
    unfolding floydRivest.simps floydRivest_Ordered.simps pivot_step_eq_Ordered Suc.IH
    by (rule refl)
qed

lemma TopK_eq_Ordered: "TopK fuel samp x k = TopK_Ordered fuel samp (<) (=) x k"
  unfolding TopK_def TopK_Ordered_def floydRivest_eq_Ordered by (rule refl)

lemma float64_eq_iff:
  "NaN \<notin> set x \<Longrightarrow> \<forall>a\<in>set x. \<forall>b\<in>set x. float64_eq a b \<longleftrightarrow> \<not> (float64_less a b \<or> float64_less b a)"
proof (intro ballI)
  fix a b assume "NaN \<notin> set x" "a \<in> set x" "b \<in> set x"
  then obtain p q where "a = Num p" "b = Num q" by (cases a; cases b) auto
  then show "float64_eq a b \<longleftrightarrow> \<not> (float64_less a b \<or> float64_less b a)" by auto
qed

section \<open>The claims\<close>

text \<open>
  Claim C1 (partial-sort postcondition). For every slice \<open>x\<close> with \<open>len(x) \<ge> 1\<close> and
  every \<open>k\<close> in \<open>[1, len(x)]\<close>, \<open>Sort(x, k)\<close> and \<open>SortFunc(x, k, less)\<close> with a strict
  weak order \<open>less\<close>, in the version of \<open>src/unnamed/part_002\<close> and in the version at lines
  175 to 188 of \<open>src/topk.go\<close>, return with the prefix \<open>x[0..k)\<close>, index \<open>k-1\<close> included,
  sorted ascending, and with no element of \<open>x[k..n)\<close> less than \<open>x[k-1]\<close>.
\<close>

theorem Sort_prefix_sorted:
  fixes x :: "'a::linorder list"
  assumes "strict_weak_order lt"
    and "sampler_brackets samp (int (length x))" and "sampler_shrinks samp (int (length x))"
    and "comparison_sort srt lt"
    and "1 \<le> k" and "k \<le> int (length x)" and "length x \<le> fuel"
  shows "(\<exists>z. Sort fuel samp x k = Some (Inr z) \<and> sorted (take (nat k) z) \<and>
            (\<forall>n. k \<le> int n \<and> n < length x \<longrightarrow> z ! nat (k - 1) \<le> z ! n)) \<and>
         (\<exists>z. SortFunc fuel samp srt x k lt = Some (Inr z) \<and>
            sorted_wrt (\<lambda>a b. \<not> lt b a) (take (nat k) z) \<and>
            (\<forall>n. k \<le> int n \<and> n < length x \<longrightarrow> \<not> lt (z ! n) (z ! nat (k - 1)))) \<and>
         (\<exists>z. Sort_clamped fuel samp x k = Some (Inr z) \<and> sorted (take (nat k) z) \<and>
            (\<forall>n. k \<le> int n \<and> n < length x \<longrightarrow> z ! nat (k - 1) \<le> z ! n)) \<and>
         (\<exists>z. SortFunc_clamped fuel samp srt x k lt = Some (Inr z) \<and>
            sorted_wrt (\<lambda>a b. \<not> lt b a) (take (nat k) z) \<and>
            (\<forall>n. k \<le> int n \<and> n < length x \<longrightarrow> \<not> lt (z ! n) (z ! nat (k - 1))))"
proof (intro conjI)
  from SortFunc_select[OF swo_linorder assms(2,3) comparison_sort_sort assms(5-)]
  show "\<exists>z. Sort fuel samp x k = Some (Inr z) \<and> sorted (take (nat k) z) \<and>
            (\<forall>n. k \<le> int n \<and> n < length x \<longrightarrow> z ! nat (k - 1) \<le> z ! n)"
    unfolding Sort_eq_Func not_less by blast
  from SortFunc_select[OF assms]
  show "\<exists>z. SortFunc fuel samp srt x k lt = Some (Inr z) \<and>
            sorted_wrt (\<lambda>a b. \<not> lt b a) (take (nat k) z) \<and>
            (\<forall>n. k \<le> int n \<and> n < length x \<longrightarrow> \<not> lt (z ! n) (z ! nat (k - 1)))"
    by blast
  from SortFunc_clamped_select[OF swo_linorder assms(2,3) comparison_sort_sort assms(5-)]
  show "\<exists>z. Sort_clamped fuel samp x k = Some (Inr z) \<and> sorted (take (nat k) z) \<and>
            (\<forall>n. k \<le> int n \<and> n < length x \<longrightarrow> z ! nat (k - 1) \<le> z ! n)"
    unfolding Sort_clamped_eq_Func not_less by blast
  from SortFunc_clamped_select[OF assms]
  show "\<exists>z. SortFunc_clamped fuel samp srt x k lt = Some (Inr z) \<and>
            sorted_wrt (\<lambda>a b. \<not> lt b a) (take (nat k) z) \<and>
            (\<forall>n. k \<le> int n \<and> n < length x \<longrightarrow> \<not> lt (z ! n) (z ! nat (k - 1)))"
    by blast
qed

theorem Sort_prefix_sorted_witness:
  "Sort 5 sample_at_k [9, 2, 5, - 1, 4 :: int] 2 = Some (Inr [- 1, 2, 5, 9, 4]) \<and>
   SortFunc 5 sample_at_k sort_descending [9, 2, 5, - 1, 4 :: int] 2 (\<lambda>a b. b < a) =
     Some (Inr [9, 5, 4, 2, - 1]) \<and>
   (\<exists>z. Sort 5 sample_at_k [9, 2, 5, - 1, 4 :: int] 2 = Some (Inr z) \<and> sorted (take (nat 2) z) \<and>
        (\<forall>n. 2 \<le> int n \<and> n < length [9, 2, 5, - 1, 4 :: int] \<longrightarrow> z ! nat (2 - 1) \<le> z ! n)) \<and>
   (\<exists>z. SortFunc 5 sample_at_k sort_descending [9, 2, 5, - 1, 4 :: int] 2 (\<lambda>a b. b < a) = Some (Inr z) \<and>
        sorted_wrt (\<lambda>a b. \<not> a < b) (take (nat 2) z) \<and>
        (\<forall>n. 2 \<le> int n \<and> n < length [9, 2, 5, - 1, 4 :: int] \<longrightarrow> \<not> z ! nat (2 - 1) < z ! n)) \<and>
   (\<exists>z. Sort_clamped 5 sample_at_k [9, 2, 5, - 1, 4 :: int] 2 = Some (Inr z) \<and>
        sorted (take (nat 2) z) \<and>
        (\<forall>n. 2 \<le> int n \<and> n < length [9, 2, 5, - 1, 4 :: int] \<longrightarrow> z ! nat (2 - 1) \<le> z ! n)) \<and>
   (\<exists>z. SortFunc_clamped 5 sample_at_k sort_descending [9, 2, 5, - 1, 4 :: int] 2 (\<lambda>a b. b < a) =
          Some (Inr z) \<and>
        sorted_wrt (\<lambda>a b. \<not> a < b) (take (nat 2) z) \<and>
        (\<forall>n. 2 \<le> int n \<and> n < length [9, 2, 5, - 1, 4 :: int] \<longrightarrow> \<not> z ! nat (2 - 1) < z ! n))"
proof -
  have "Sort 5 sample_at_k [9, 2, 5, - 1, 4 :: int] 2 = Some (Inr [- 1, 2, 5, 9, 4])"
    by code_simp
  moreover have "SortFunc 5 sample_at_k sort_descending [9, 2, 5, - 1, 4 :: int] 2 (\<lambda>a b. b < a) =
      Some (Inr [9, 5, 4, 2, - 1])"
    by code_simp
  moreover have "(\<exists>z. Sort 5 sample_at_k [9, 2, 5, - 1, 4 :: int] 2 = Some (Inr z) \<and> sorted (take (nat 2) z) \<and>
         (\<forall>n. 2 \<le> int n \<and> n < length [9, 2, 5, - 1, 4 :: int] \<longrightarrow> z ! nat (2 - 1) \<le> z ! n)) \<and>
    (\<exists>z. SortFunc 5 sample_at_k sort_descending [9, 2, 5, - 1, 4 :: int] 2 (\<lambda>a b. b < a) = Some (Inr z) \<and>
         sorted_wrt (\<lambda>a b. \<not> a < b) (take (nat 2) z) \<and>
         (\<forall>n. 2 \<le> int n \<and> n < length [9, 2, 5, - 1, 4 :: int] \<longrightarrow> \<not> z ! nat (2 - 1) < z ! n)) \<and>
    (\<exists>z. Sort_clamped 5 sample_at_k [9, 2, 5, - 1, 4 :: int] 2 = Some (Inr z) \<and>
         sorted (take (nat 2) z) \<and>
         (\<forall>n. 2 \<le> int n \<and> n < length [9, 2, 5, - 1, 4 :: int] \<longrightarrow> z ! nat (2 - 1) \<le> z ! n)) \<and>
    (\<exists>z. SortFunc_clamped 5 sample_at_k sort_descending [9, 2, 5, - 1, 4 :: int] 2 (\<lambda>a b. b < a) =
           Some (Inr z) \<and>
         sorted_wrt (\<lambda>a b. \<not> a < b) (take (nat 2) z) \<and>
         (\<forall>n. 2 \<le> int n \<and> n < length [9, 2, 5, - 1, 4 :: int] \<longrightarrow> \<not> z ! nat (2 - 1) < z ! n))"
    by (rule Sort_prefix_sorted[OF swo_greater_int sample_at_k_brackets sample_at_k_shrinks
          comparison_sort_descending]) simp_all
  ultimately show ?thesis by blast
qed

text \<open>
  Claim C2 (kth-element correctness). For every slice \<open>x\<close> and every \<open>k\<close> in
  \<open>[1, len(x)]\<close>, after \<open>TopK(x, k)\<close> the element \<open>x[k-1]\<close> is the element at index
  \<open>k-1\<close> of the sorted copy of \<open>x\<close>; after \<open>TopKFunc(x, k, less)\<close> with a strict weak
  order \<open>less\<close> it is order-equivalent to the element at index \<open>k-1\<close> of every
  rearrangement of \<open>x\<close> that is sorted under \<open>less\<close>.
\<close>

theorem TopK_kth_element:
  fixes x :: "'a::linorder list"
  assumes "strict_weak_order lt"
    and "sampler_brackets samp (int (length x))" and "sampler_shrinks samp (int (length x))"
    and "1 \<le> k" and "k \<le> int (length x)" and "length x \<le> fuel"
  shows "(\<exists>y. TopK fuel samp x k = Some (Inr y) \<and> y ! nat (k - 1) = sort x ! nat (k - 1)) \<and>
         (\<exists>y. TopKFunc fuel samp x k lt = Some (Inr y) \<and>
            (\<forall>s. mset s = mset x \<and> sorted_wrt (\<lambda>a b. \<not> lt b a) s \<longrightarrow>
               \<not> lt (y ! nat (k - 1)) (s ! nat (k - 1)) \<and>
               \<not> lt (s ! nat (k - 1)) (y ! nat (k - 1))))"
proof
  from TopKFunc_select[OF swo_linorder assms(2-)]
  obtain y where y: "TopK fuel samp x k = Some (Inr y)"
    and len: "length y = length x" and ms: "mset y = mset x"
    and lo: "\<forall>i. int i < k - 1 \<longrightarrow> \<not> y ! nat (k - 1) < y ! i"
    and hi: "\<forall>j. k \<le> int j \<and> j < length x \<longrightarrow> \<not> y ! j < y ! nat (k - 1)"
    unfolding TopK_eq_Func by blast
  have n: "nat (k - 1) < length y" using assms(4,5) len by auto
  have lo': "\<forall>i. i < nat (k - 1) \<longrightarrow> \<not> y ! nat (k - 1) < y ! i" using lo by auto
  have hi': "\<forall>j. nat (k - 1) < j \<and> j < length y \<longrightarrow> \<not> y ! j < y ! nat (k - 1)"
    using hi len by auto
  have "y ! nat (k - 1) = sort x ! nat (k - 1)"
    using kth_native[OF ms n lo' hi'] .
  with y show "\<exists>y. TopK fuel samp x k = Some (Inr y) \<and> y ! nat (k - 1) = sort x ! nat (k - 1)"
    by blast
next
  from TopKFunc_select[OF assms]
  obtain y where y: "TopKFunc fuel samp x k lt = Some (Inr y)"
    and len: "length y = length x" and ms: "mset y = mset x"
    and lo: "\<forall>i. int i < k - 1 \<longrightarrow> \<not> lt (y ! nat (k - 1)) (y ! i)"
    and hi: "\<forall>j. k \<le> int j \<and> j < length x \<longrightarrow> \<not> lt (y ! j) (y ! nat (k - 1))"
    by blast
  have n: "nat (k - 1) < length y" using assms(4,5) len by auto
  have lo': "\<forall>i. i < nat (k - 1) \<longrightarrow> \<not> lt (y ! nat (k - 1)) (y ! i)" using lo by auto
  have hi': "\<forall>j. nat (k - 1) < j \<and> j < length y \<longrightarrow> \<not> lt (y ! j) (y ! nat (k - 1))"
    using hi len by auto
  have "\<not> lt (y ! nat (k - 1)) (s ! nat (k - 1)) \<and> \<not> lt (s ! nat (k - 1)) (y ! nat (k - 1))"
    if "mset s = mset x \<and> sorted_wrt (\<lambda>a b. \<not> lt b a) s" for s
    using kth_of_partition[OF assms(1) _ _ n lo' hi', of s] that ms by simp
  with y show "\<exists>y. TopKFunc fuel samp x k lt = Some (Inr y) \<and>
            (\<forall>s. mset s = mset x \<and> sorted_wrt (\<lambda>a b. \<not> lt b a) s \<longrightarrow>
               \<not> lt (y ! nat (k - 1)) (s ! nat (k - 1)) \<and>
               \<not> lt (s ! nat (k - 1)) (y ! nat (k - 1)))"
    by blast
qed

theorem TopK_kth_element_witness:
  "(\<exists>y. TopK 5 sample_at_k [9, 2, 5, - 1, 4 :: int] 3 = Some (Inr y) \<and>
         y ! nat (3 - 1) = sort [9, 2, 5, - 1, 4 :: int] ! nat (3 - 1)) \<and>
   (\<exists>y. TopKFunc 5 sample_at_k [9, 2, 5, - 1, 4 :: int] 3 (\<lambda>a b. b < a) = Some (Inr y) \<and>
         (\<forall>s. mset s = mset [9, 2, 5, - 1, 4 :: int] \<and> sorted_wrt (\<lambda>a b. \<not> a < b) s \<longrightarrow>
            \<not> s ! nat (3 - 1) < y ! nat (3 - 1) \<and> \<not> y ! nat (3 - 1) < s ! nat (3 - 1)))"
  by (rule TopK_kth_element[OF swo_greater_int sample_at_k_brackets sample_at_k_shrinks]) simp_all

text \<open>
  Claim C3 (partition property). For every slice \<open>x\<close> and every \<open>k\<close> in
  \<open>[1, len(x)]\<close>, \<open>TopKFunc(x, k, less)\<close> with a strict weak order \<open>less\<close>, and
  \<open>TopK(x, k)\<close>, return with the slice partitioned around index \<open>k-1\<close>: no element
  before it is greater than \<open>x[k-1]\<close> and no element from index \<open>k\<close> on is less.
\<close>

theorem TopK_partition:
  fixes x :: "'a::linorder list"
  assumes "strict_weak_order lt"
    and "sampler_brackets samp (int (length x))" and "sampler_shrinks samp (int (length x))"
    and "1 \<le> k" and "k \<le> int (length x)" and "length x \<le> fuel"
  shows "(\<exists>y. TopKFunc fuel samp x k lt = Some (Inr y) \<and> length y = length x \<and>
            (\<forall>i. int i < k - 1 \<longrightarrow> \<not> lt (y ! nat (k - 1)) (y ! i)) \<and>
            (\<forall>j. k \<le> int j \<and> j < length x \<longrightarrow> \<not> lt (y ! j) (y ! nat (k - 1)))) \<and>
         (\<exists>y. TopK fuel samp x k = Some (Inr y) \<and> length y = length x \<and>
            (\<forall>i. int i < k - 1 \<longrightarrow> \<not> y ! nat (k - 1) < y ! i) \<and>
            (\<forall>j. k \<le> int j \<and> j < length x \<longrightarrow> \<not> y ! j < y ! nat (k - 1)))"
proof
  from TopKFunc_select[OF assms]
  show "\<exists>y. TopKFunc fuel samp x k lt = Some (Inr y) \<and> length y = length x \<and>
            (\<forall>i. int i < k - 1 \<longrightarrow> \<not> lt (y ! nat (k - 1)) (y ! i)) \<and>
            (\<forall>j. k \<le> int j \<and> j < length x \<longrightarrow> \<not> lt (y ! j) (y ! nat (k - 1)))"
    by blast
next
  from TopKFunc_select[OF swo_linorder assms(2-)]
  show "\<exists>y. TopK fuel samp x k = Some (Inr y) \<and> length y = length x \<and>
            (\<forall>i. int i < k - 1 \<longrightarrow> \<not> y ! nat (k - 1) < y ! i) \<and>
            (\<forall>j. k \<le> int j \<and> j < length x \<longrightarrow> \<not> y ! j < y ! nat (k - 1))"
    unfolding TopK_eq_Func by blast
qed

theorem TopK_partition_witness:
  "TopK 5 sample_at_k [9, 2, 5, - 1, 4 :: int] 3 = Some (Inr [- 1, 2, 4, 5, 9]) \<and>
   (\<exists>y. TopKFunc 5 sample_at_k [9, 2, 5, - 1, 4 :: int] 3 (\<lambda>a b. b < a) = Some (Inr y) \<and>
         length y = length [9, 2, 5, - 1, 4 :: int] \<and>
            (\<forall>i. int i < 3 - 1 \<longrightarrow> \<not> (y ! i < y ! nat (3 - 1))) \<and>
            (\<forall>j. 3 \<le> int j \<and> j < length [9, 2, 5, - 1, 4 :: int] \<longrightarrow> \<not> (y ! nat (3 - 1) < y ! j))) \<and>
   (\<exists>y. TopK 5 sample_at_k [9, 2, 5, - 1, 4 :: int] 3 = Some (Inr y) \<and>
         length y = length [9, 2, 5, - 1, 4 :: int] \<and>
            (\<forall>i. int i < 3 - 1 \<longrightarrow> \<not> y ! nat (3 - 1) < y ! i) \<and>
            (\<forall>j. 3 \<le> int j \<and> j < length [9, 2, 5, - 1, 4 :: int] \<longrightarrow> \<not> y ! j < y ! nat (3 - 1)))"
proof -
  have "TopK 5 sample_at_k [9, 2, 5, - 1, 4 :: int] 3 = Some (Inr [- 1, 2, 4, 5, 9])"
    by code_simp
  moreover have "(\<exists>y. TopKFunc 5 sample_at_k [9, 2, 5, - 1, 4 :: int] 3 (\<lambda>a b. b < a) = Some (Inr y) \<and>
          length y = length [9, 2, 5, - 1, 4 :: int] \<and>
             (\<forall>i. int i < 3 - 1 \<longrightarrow> \<not> (y ! i < y ! nat (3 - 1))) \<and>
             (\<forall>j. 3 \<le> int j \<and> j < length [9, 2, 5, - 1, 4 :: int] \<longrightarrow> \<not> (y ! nat (3 - 1) < y ! j))) \<and>
    (\<exists>y. TopK 5 sample_at_k [9, 2, 5, - 1, 4 :: int] 3 = Some (Inr y) \<and>
          length y = length [9, 2, 5, - 1, 4 :: int] \<and>
             (\<forall>i. int i < 3 - 1 \<longrightarrow> \<not> y ! nat (3 - 1) < y ! i) \<and>
             (\<forall>j. 3 \<le> int j \<and> j < length [9, 2, 5, - 1, 4 :: int] \<longrightarrow> \<not> y ! j < y ! nat (3 - 1)))"
    by (rule TopK_partition[OF swo_greater_int sample_at_k_brackets sample_at_k_shrinks])
       simp_all
  ultimately show ?thesis by blast
qed

text \<open>
  Claim C4 (permutation invariant). For every slice \<open>x\<close> and every integer \<open>k\<close>, negative
  and oversized ones included, \<open>TopK\<close>, \<open>TopKFunc\<close>, \<open>Sort\<close> and \<open>SortFunc\<close> (both
  versions of the last two) return a slice with the same multiset of elements as \<open>x\<close>.
\<close>

theorem permutation_invariant:
  fixes x :: "'a::linorder list"
  assumes "strict_weak_order lt"
    and "sampler_brackets samp (int (length x))" and "sampler_shrinks samp (int (length x))"
    and "comparison_sort srt lt" and "length x < fuel"
  shows "(\<exists>y. TopK fuel samp x k = Some (Inr y) \<and> mset y = mset x) \<and>
         (\<exists>y. TopKFunc fuel samp x k lt = Some (Inr y) \<and> mset y = mset x) \<and>
         (\<exists>y. Sort fuel samp x k = Some (Inr y) \<and> mset y = mset x) \<and>
         (\<exists>y. SortFunc fuel samp srt x k lt = Some (Inr y) \<and> mset y = mset x) \<and>
         (\<exists>y. Sort_clamped fuel samp x k = Some (Inr y) \<and> mset y = mset x) \<and>
         (\<exists>y. SortFunc_clamped fuel samp srt x k lt = Some (Inr y) \<and> mset y = mset x)"
proof -
  have f: "length x \<le> fuel" using assms(5) by simp
  show ?thesis
    unfolding TopK_eq_Func Sort_eq_Func Sort_clamped_eq_Func
    using TopKFunc_total[OF swo_linorder assms(2,3) f, of k]
      TopKFunc_total[OF assms(1-3) f, of k]
      SortFunc_total[OF swo_linorder assms(2,3) comparison_sort_sort f, of k]
      SortFunc_total[OF assms(1-4) f, of k]
      SortFunc_clamped_total[OF swo_linorder assms(2,3) comparison_sort_sort assms(5), of k]
      SortFunc_clamped_total[OF assms, of k]
    by blast
qed

theorem permutation_invariant_witness:
  "(\<exists>y. TopK 4 sample_at_k [9, 2, 5 :: int] 7 = Some (Inr y) \<and> mset y = mset [9, 2, 5]) \<and>
   (\<exists>y. TopKFunc 4 sample_at_k [9, 2, 5 :: int] 7 (\<lambda>a b. b < a) = Some (Inr y) \<and>
        mset y = mset [9, 2, 5]) \<and>
   (\<exists>y. Sort 4 sample_at_k [9, 2, 5 :: int] 7 = Some (Inr y) \<and> mset y = mset [9, 2, 5]) \<and>
   (\<exists>y. SortFunc 4 sample_at_k sort_descending [9, 2, 5 :: int] 7 (\<lambda>a b. b < a) = Some (Inr y) \<and>
        mset y = mset [9, 2, 5]) \<and>
   (\<exists>y. Sort_clamped 4 sample_at_k [9, 2, 5 :: int] 7 = Some (Inr y) \<and> mset y = mset [9, 2, 5]) \<and>
   (\<exists>y. SortFunc_clamped 4 sample_at_k sort_descending [9, 2, 5 :: int] 7 (\<lambda>a b. b < a) =
          Some (Inr y) \<and> mset y = mset [9, 2, 5])"
  by (rule permutation_invariant[OF swo_greater_int sample_at_k_brackets sample_at_k_shrinks
        comparison_sort_descending]) simp

text \<open>
  Claim C5, as amended (\<open>k \<le> 0\<close> in partial sort). For a slice \<open>x\<close> with \<open>len(x) \<ge> 1\<close>
  and \<open>k \<le> 0\<close>: \<open>Sort\<close> and \<open>SortFunc\<close> of \<open>src/unnamed/part_002\<close> clamp \<open>k\<close> with
  \<open>min(k, len(x))\<close> only and return \<open>x\<close> unchanged; the copies at lines 175 to 188 of
  \<open>src/topk.go\<close> clamp \<open>k\<close> to \<open>[1, len(x)]\<close> and return with a least element of \<open>x\<close> at
  index 0.
\<close>

theorem Sort_nonpositive_k:
  fixes x :: "'a::linorder list"
  assumes "strict_weak_order lt"
    and "sampler_brackets samp (int (length x))" and "sampler_shrinks samp (int (length x))"
    and "comparison_sort srt lt" and "length x \<le> fuel" and "x \<noteq> []" and "k \<le> 0"
  shows "Sort fuel samp x k = Some (Inr x) \<and>
         SortFunc fuel samp srt x k lt = Some (Inr x) \<and>
         (\<exists>z. Sort_clamped fuel samp x k = Some (Inr z) \<and> mset z = mset x \<and>
              (\<forall>n. n < length x \<longrightarrow> z ! 0 \<le> z ! n)) \<and>
         (\<exists>z. SortFunc_clamped fuel samp srt x k lt = Some (Inr z) \<and> mset z = mset x \<and>
              (\<forall>n. n < length x \<longrightarrow> \<not> lt (z ! n) (z ! 0)))"
proof (intro conjI)
  show "Sort fuel samp x k = Some (Inr x)"
    unfolding Sort_eq_Func using assms(7) by (rule SortFunc_nonpositive)
  show "SortFunc fuel samp srt x k lt = Some (Inr x)"
    using assms(7) by (rule SortFunc_nonpositive)
  from SortFunc_clamped_nonpositive[OF swo_linorder assms(2,3) comparison_sort_sort assms(5-)]
  show "\<exists>z. Sort_clamped fuel samp x k = Some (Inr z) \<and> mset z = mset x \<and>
              (\<forall>n. n < length x \<longrightarrow> z ! 0 \<le> z ! n)"
    unfolding Sort_clamped_eq_Func not_less by blast
  from SortFunc_clamped_nonpositive[OF assms]
  show "\<exists>z. SortFunc_clamped fuel samp srt x k lt = Some (Inr z) \<and> mset z = mset x \<and>
              (\<forall>n. n < length x \<longrightarrow> \<not> lt (z ! n) (z ! 0))"
    by blast
qed

theorem Sort_nonpositive_k_witness:
  "Sort 3 sample_at_k [9, 2, 5 :: int] (- 1) = Some (Inr [9, 2, 5]) \<and>
   SortFunc 3 sample_at_k sort_descending [9, 2, 5 :: int] (- 1) (\<lambda>a b. b < a) = Some (Inr [9, 2, 5]) \<and>
   (\<exists>z. Sort_clamped 3 sample_at_k [9, 2, 5 :: int] (- 1) = Some (Inr z) \<and> mset z = mset [9, 2, 5] \<and>
        (\<forall>n. n < length [9, 2, 5 :: int] \<longrightarrow> z ! 0 \<le> z ! n)) \<and>
   (\<exists>z. SortFunc_clamped 3 sample_at_k sort_descending [9, 2, 5 :: int] (- 1) (\<lambda>a b. b < a) =
          Some (Inr z) \<and> mset z = mset [9, 2, 5] \<and>
        (\<forall>n. n < length [9, 2, 5 :: int] \<longrightarrow> \<not> z ! 0 < z ! n))"
  by (rule Sort_nonpositive_k[OF swo_greater_int sample_at_k_brackets sample_at_k_shrinks
        comparison_sort_descending]) simp_all

text \<open>
  Claim C5 as stated (for every \<open>k \<le> 0\<close> partial sort still puts a minimum at \<open>x[0]\<close>)
  fails for \<open>Sort\<close> of \<open>src/unnamed/part_002\<close>: on \<open>[9, 2, 5]\<close> with \<open>k = -1\<close> it
  returns the slice as it was, and \<open>9\<close> is not a minimum.
\<close>

theorem Sort_nonpositive_k_counterexample:
  "Sort 3 sample_at_k [9, 2, 5 :: int] (- 1) = Some (Inr [9, 2, 5]) \<and>
   \<not> [9, 2, 5 :: int] ! 0 \<le> [9, 2, 5] ! 1"
  by (simp add: Sort_def min_int_def)

text \<open>
  Claim C6 (boundary behaviour of \<open>k\<close>). \<open>TopK(x, k)\<close> and \<open>TopKFunc(x, k, less)\<close> with
  \<open>k \<le> 0\<close> return \<open>x\<close> unchanged; with \<open>k \<ge> len(x)\<close> they do what they do for
  \<open>k = len(x)\<close>, which selects over the entire slice (a greatest element ends at the last
  index); and for no \<open>k\<close> is an error raised: the call returns a rearrangement of \<open>x\<close>.
\<close>

theorem TopK_boundary:
  fixes x :: "'a::linorder list"
  shows "(k \<le> 0 \<longrightarrow>
            TopK fuel samp x k = Some (Inr x) \<and> TopKFunc fuel samp x k lt = Some (Inr x)) \<and>
         (int (length x) \<le> k \<longrightarrow>
            TopK fuel samp x k = TopK fuel samp x (int (length x)) \<and>
            TopKFunc fuel samp x k lt = TopKFunc fuel samp x (int (length x)) lt) \<and>
         (int (length x) \<le> k \<and> strict_weak_order lt \<and> sampler_brackets samp (int (length x)) \<and>
          sampler_shrinks samp (int (length x)) \<and> length x \<le> fuel \<longrightarrow>
            (\<exists>y. TopK fuel samp x k = Some (Inr y) \<and> mset y = mset x \<and>
                 (\<forall>i. i < length x \<longrightarrow> y ! i \<le> y ! (length x - 1))) \<and>
            (\<exists>y. TopKFunc fuel samp x k lt = Some (Inr y) \<and> mset y = mset x \<and>
                 (\<forall>i. i < length x \<longrightarrow> \<not> lt (y ! (length x - 1)) (y ! i)))) \<and>
         (strict_weak_order lt \<and> sampler_brackets samp (int (length x)) \<and>
          sampler_shrinks samp (int (length x)) \<and> length x \<le> fuel \<longrightarrow>
            (\<exists>y. TopK fuel samp x k = Some (Inr y) \<and> mset y = mset x) \<and>
            (\<exists>y. TopKFunc fuel samp x k lt = Some (Inr y) \<and> mset y = mset x))"
proof (intro conjI impI)
  assume "k \<le> 0"
  then show "TopK fuel samp x k = Some (Inr x)" "TopKFunc fuel samp x k lt = Some (Inr x)"
    by (simp_all add: TopK_eq_Func TopKFunc_nonpositive)
next
  assume "int (length x) \<le> k"
  then show "TopK fuel samp x k = TopK fuel samp x (int (length x))"
    "TopKFunc fuel samp x k lt = TopKFunc fuel samp x (int (length x)) lt"
    using TopKFunc_clamp[of x k] by (simp_all add: TopK_eq_Func)
next
  assume a: "int (length x) \<le> k \<and> strict_weak_order lt \<and> sampler_brackets samp (int (length x)) \<and>
          sampler_shrinks samp (int (length x)) \<and> length x \<le> fuel"
  then show "\<exists>y. TopKFunc fuel samp x k lt = Some (Inr y) \<and> mset y = mset x \<and>
                 (\<forall>i. i < length x \<longrightarrow> \<not> lt (y ! (length x - 1)) (y ! i))"
    using TopKFunc_selects_all[of lt samp x k fuel] by blast
  from a TopKFunc_selects_all[OF swo_linorder, of samp x k fuel]
  show "\<exists>y. TopK fuel samp x k = Some (Inr y) \<and> mset y = mset x \<and>
                 (\<forall>i. i < length x \<longrightarrow> y ! i \<le> y ! (length x - 1))"
    unfolding TopK_eq_Func not_less by blast
next
  assume a: "strict_weak_order lt \<and> sampler_brackets samp (int (length x)) \<and>
          sampler_shrinks samp (int (length x)) \<and> length x \<le> fuel"
  then show "\<exists>y. TopKFunc fuel samp x k lt = Some (Inr y) \<and> mset y = mset x"
    using TopKFunc_total[of lt samp x fuel k] by blast
  from a TopKFunc_total[OF swo_linorder, of samp x fuel k]
  show "\<exists>y. TopK fuel samp x k = Some (Inr y) \<and> mset y = mset x"
    unfolding TopK_eq_Func by blast
qed

theorem TopK_boundary_witness:
  "TopK 3 sample_at_k [9, 2, 5 :: int] (- 1) = Some (Inr [9, 2, 5]) \<and>
   TopKFunc 3 sample_at_k [9, 2, 5 :: int] (- 1) (\<lambda>a b. b < a) = Some (Inr [9, 2, 5]) \<and>
   TopK 3 sample_at_k [9, 2, 5 :: int] 5 = TopK 3 sample_at_k [9, 2, 5] 3 \<and>
   TopKFunc 3 sample_at_k [9, 2, 5 :: int] 5 (\<lambda>a b. b < a) =
     TopKFunc 3 sample_at_k [9, 2, 5] 3 (\<lambda>a b. b < a) \<and>
   (\<exists>y. TopK 3 sample_at_k [9, 2, 5 :: int] 5 = Some (Inr y) \<and> mset y = mset [9, 2, 5] \<and>
        (\<forall>i. i < length [9, 2, 5 :: int] \<longrightarrow> y ! i \<le> y ! (length [9, 2, 5 :: int] - 1))) \<and>
   (\<exists>y. TopKFunc 3 sample_at_k [9, 2, 5 :: int] 5 (\<lambda>a b. b < a) = Some (Inr y) \<and>
        mset y = mset [9, 2, 5] \<and>
        (\<forall>i. i < length [9, 2, 5 :: int] \<longrightarrow> \<not> (y ! i < y ! (length [9, 2, 5 :: int] - 1))))"
proof -
  note neg = TopK_boundary[of "- 1" 3 sample_at_k "[9, 2, 5 :: int]" "\<lambda>a b. b < a"]
  note big = TopK_boundary[of 5 3 sample_at_k "[9, 2, 5 :: int]" "\<lambda>a b. b < a"]
  have h: "int (length [9, 2, 5 :: int]) \<le> 5 \<and> strict_weak_order (\<lambda>a b :: int. b < a) \<and>
      sampler_brackets sample_at_k (int (length [9, 2, 5 :: int])) \<and>
      sampler_shrinks sample_at_k (int (length [9, 2, 5 :: int])) \<and> length [9, 2, 5 :: int] \<le> 3"
    using swo_greater_int sample_at_k_brackets sample_at_k_shrinks by simp
  have "(- 1 :: int) \<le> 0" by simp
  with neg have
    "TopK 3 sample_at_k [9, 2, 5 :: int] (- 1) = Some (Inr [9, 2, 5]) \<and>
     TopKFunc 3 sample_at_k [9, 2, 5 :: int] (- 1) (\<lambda>a b. b < a) = Some (Inr [9, 2, 5])"
    by blast
  moreover from big h have
    "TopK 3 sample_at_k [9, 2, 5 :: int] 5 = TopK 3 sample_at_k [9, 2, 5] (int (length [9, 2, 5 :: int])) \<and>
     TopKFunc 3 sample_at_k [9, 2, 5 :: int] 5 (\<lambda>a b. b < a) =
       TopKFunc 3 sample_at_k [9, 2, 5] (int (length [9, 2, 5 :: int])) (\<lambda>a b. b < a)"
    by blast
  moreover from big h have
    "(\<exists>y. TopK 3 sample_at_k [9, 2, 5 :: int] 5 = Some (Inr y) \<and> mset y = mset [9, 2, 5] \<and>
        (\<forall>i. i < length [9, 2, 5 :: int] \<longrightarrow> y ! i \<le> y ! (length [9, 2, 5 :: int] - 1))) \<and>
     (\<exists>y. TopKFunc 3 sample_at_k [9, 2, 5 :: int] 5 (\<lambda>a b. b < a) = Some (Inr y) \<and>
        mset y = mset [9, 2, 5] \<and>
        (\<forall>i. i < length [9, 2, 5 :: int] \<longrightarrow> \<not> (y ! i < y ! (length [9, 2, 5 :: int] - 1))))"
    by blast
  ultimately show ?thesis by simp
qed

text \<open>
  Claim C7 (termination). For every slice \<open>x\<close>, every window \<open>[left, right]\<close> of it with
  the target index \<open>k\<close> inside, and every strict weak order \<open>less\<close>, \<open>floydRivestFunc\<close>
  and \<open>floydRivest\<close> return: the nesting of loop iterations and sampling calls is at most
  \<open>right - left + 1\<close> deep, whatever the number of elements that tie with a pivot. The
  partition-and-narrow loop ends because the pivot lands inside the window; the sampling
  recursion ends because the formulas of lines 43 to 50 give a window that holds \<open>k\<close> and
  is at most about half as wide, which is proved of their values over the reals and holds
  of every sampler whose two \<open>math.Floor\<close> arguments are within 1 of those values. (The
  inner loops are total functions by their termination proofs.)
\<close>

theorem floydRivest_terminates:
  fixes x :: "'a::linorder list"
  assumes "strict_weak_order lt" and "sampler_accurate samp (int (length x))"
    and "0 \<le> left" and "left \<le> k" and "k \<le> right" and "right < int (length x)"
    and "nat (right - left) < fuel"
  shows "(\<exists>y. floydRivestFunc fuel samp x left right k lt = Some (Inr y)) \<and>
         (\<exists>y. floydRivest fuel samp x left right k = Some (Inr y))"
proof -
  note br = sampler_accurate_brackets[OF assms(2)]
  note sh = sampler_accurate_shrinks[OF assms(2)]
  show ?thesis
    using floydRivestFunc_correct[OF assms(1) br sh assms(3-)]
      floydRivestFunc_correct[OF swo_linorder br sh assms(3-)]
    unfolding floydRivest_eq_Func by blast
qed

theorem floydRivest_terminates_witness:
  "(\<exists>y. floydRivestFunc 700 exact_sampler (replicate 700 (1::int)) 0 699 350 (\<lambda>a b. b < a) =
          Some (Inr y)) \<and>
   (\<exists>y. floydRivest 700 exact_sampler (replicate 700 (1::int)) 0 699 350 = Some (Inr y))"
  by (rule floydRivest_terminates[OF swo_greater_int exact_sampler_accurate]) simp_all

text \<open>
  Claim C8 (idempotence). For every slice \<open>x\<close> and every \<open>k\<close> in \<open>[1, len(x)]\<close>,
  \<open>TopK(x, k)\<close> applied twice returns both times, and after the second application the
  postconditions hold as after the first: \<open>x[k-1]\<close> is the value it had after the first
  application, which is the element at index \<open>k-1\<close> of the sorted copy of the initial
  slice; the slice is partitioned around index \<open>k-1\<close>; and it is a rearrangement of the
  initial slice.
\<close>

theorem TopK_twice:
  fixes x :: "'a::linorder list"
  assumes "sampler_brackets samp (int (length x))" and "sampler_shrinks samp (int (length x))"
    and "1 \<le> k" and "k \<le> int (length x)" and "length x \<le> fuel"
  shows "\<exists>y z. TopK fuel samp x k = Some (Inr y) \<and> TopK fuel samp y k = Some (Inr z) \<and>
           z ! nat (k - 1) = y ! nat (k - 1) \<and>
           z ! nat (k - 1) = sort x ! nat (k - 1) \<and>
           (\<forall>i. int i < k - 1 \<longrightarrow> z ! i \<le> z ! nat (k - 1)) \<and>
           (\<forall>j. k \<le> int j \<and> j < length x \<longrightarrow> z ! nat (k - 1) \<le> z ! j) \<and>
           mset z = mset x"
proof -
  from TopKFunc_select[OF swo_linorder assms]
  obtain y where y: "TopK fuel samp x k = Some (Inr y)"
    and leny: "length y = length x" and msy: "mset y = mset x"
    and loy: "\<forall>i. int i < k - 1 \<longrightarrow> \<not> y ! nat (k - 1) < y ! i"
    and hiy: "\<forall>j. k \<le> int j \<and> j < length x \<longrightarrow> \<not> y ! j < y ! nat (k - 1)"
    unfolding TopK_eq_Func by blast
  have hy: "sampler_brackets samp (int (length y))" "sampler_shrinks samp (int (length y))"
    "k \<le> int (length y)" "length y \<le> fuel"
    using assms leny by simp_all
  from TopKFunc_select[OF swo_linorder hy(1,2) assms(3) hy(3,4)]
  obtain z where z: "TopK fuel samp y k = Some (Inr z)"
    and lenz: "length z = length y" and msz: "mset z = mset y"
    and loz: "\<forall>i. int i < k - 1 \<longrightarrow> \<not> z ! nat (k - 1) < z ! i"
    and hiz: "\<forall>j. k \<le> int j \<and> j < length y \<longrightarrow> \<not> z ! j < z ! nat (k - 1)"
    unfolding TopK_eq_Func by blast
  have ny: "nat (k - 1) < length y" and nz: "nat (k - 1) < length z"
    using assms(3,4) leny lenz by auto
  have "y ! nat (k - 1) = sort x ! nat (k - 1)"
  proof (rule kth_native[OF msy ny])
    show "\<forall>i. i < nat (k - 1) \<longrightarrow> \<not> y ! nat (k - 1) < y ! i" using loy by auto
    show "\<forall>j. nat (k - 1) < j \<and> j < length y \<longrightarrow> \<not> y ! j < y ! nat (k - 1)"
      using hiy leny by auto
  qed
  moreover have "z ! nat (k - 1) = sort x ! nat (k - 1)"
  proof (rule kth_native[OF _ nz])
    show "mset z = mset x" using msz msy by simp
    show "\<forall>i. i < nat (k - 1) \<longrightarrow> \<not> z ! nat (k - 1) < z ! i" using loz by auto
    show "\<forall>j. nat (k - 1) < j \<and> j < length z \<longrightarrow> \<not> z ! j < z ! nat (k - 1)"
      using hiz lenz by auto
  qed
  moreover have "\<forall>i. int i < k - 1 \<longrightarrow> z ! i \<le> z ! nat (k - 1)"
    using loz by (simp add: not_less)
  moreover have "\<forall>j. k \<le> int j \<and> j < length x \<longrightarrow> z ! nat (k - 1) \<le> z ! j"
    using hiz leny by (simp add: not_less)
  ultimately show ?thesis using y z msy msz by auto
qed

theorem TopK_twice_witness:
  "\<exists>y z. TopK 5 sample_at_k [5, 0, 0, 0, 1 :: int] 2 = Some (Inr y) \<and>
         TopK 5 sample_at_k y 2 = Some (Inr z) \<and>
         z ! nat (2 - 1) = y ! nat (2 - 1) \<and>
         z ! nat (2 - 1) = sort [5, 0, 0, 0, 1 :: int] ! nat (2 - 1) \<and>
         (\<forall>i. int i < 2 - 1 \<longrightarrow> z ! i \<le> z ! nat (2 - 1)) \<and>
         (\<forall>j. 2 \<le> int j \<and> j < length [5, 0, 0, 0, 1 :: int] \<longrightarrow> z ! nat (2 - 1) \<le> z ! j) \<and>
         mset z = mset [5, 0, 0, 0, 1 :: int]"
  by (rule TopK_twice[OF sample_at_k_brackets sample_at_k_shrinks]) simp_all

text \<open>
  Claim C9 (indices stay in range). For every slice \<open>x\<close>, every comparison callback
  (a strict weak order or not) and every call of \<open>floydRivest\<close> or \<open>floydRivestFunc\<close>
  with \<open>0 \<le> left \<le> k \<le> right \<le> len(x) - 1\<close>, no read or write of \<open>x\<close> is out of range:
  however long the call runs, it does not panic.
\<close>

theorem floydRivest_in_range:
  fixes x :: "'a::linorder list"
  assumes "sampler_brackets samp (int (length x))"
    and "0 \<le> left" and "left \<le> k" and "k \<le> right" and "right < int (length x)"
  shows "floydRivestFunc fuel samp x left right k lt \<noteq> Some (Inl e) \<and>
         floydRivest fuel samp x left right k \<noteq> Some (Inl e)"
  using floydRivestFunc_safe[OF assms, of fuel lt] floydRivestFunc_safe[OF assms, of fuel "(<)"]
  unfolding floydRivest_eq_Func by auto

theorem floydRivest_in_range_witness:
  "floydRivestFunc 7 sample_at_k [1, 2, 3 :: int] 0 2 1 (\<lambda>a b. True) \<noteq> Some (Inl IndexOutOfRange) \<and>
   floydRivest 7 sample_at_k [1, 2, 3 :: int] 0 2 1 \<noteq> Some (Inl IndexOutOfRange)"
  by (rule floydRivest_in_range[OF sample_at_k_brackets]) simp_all

text \<open>
  Claim C10, as amended (the two cores agree where \<open>==\<close> is order-equivalence). For
  every slice \<open>x\<close> of an integer or string type, for every float slice \<open>x\<close> that holds
  no NaN (and for every slice on whose elements \<open>==\<close> holds exactly when neither is less
  than the other), and for every integer \<open>k\<close>, \<open>TopK(x, k)\<close> and \<open>TopKFunc(x, k, less)\<close>
  with \<open>less(a, b) = (a < b)\<close> have the same outcome, and so have \<open>floydRivest\<close> and
  \<open>floydRivestFunc\<close> on every window and target: the same final slice, the same panic or
  the same divergence.
\<close>

theorem TopK_refines_TopKFunc_no_NaN:
  fixes x :: "'a::linorder list" and xf :: "float64 list" and xo :: "'b list"
  shows "(TopK fuel samp x k = TopKFunc fuel samp x k (<) \<and>
          floydRivest fuel samp x left right t = floydRivestFunc fuel samp x left right t (<)) \<and>
         (NaN \<notin> set xf \<longrightarrow>
            TopK_Ordered fuel samp float64_less float64_eq xf k =
              TopKFunc fuel samp xf k float64_less \<and>
            floydRivest_Ordered fuel samp float64_less float64_eq xf left right t =
              floydRivestFunc fuel samp xf left right t float64_less) \<and>
         ((\<forall>a\<in>set xo. \<forall>b\<in>set xo. eq a b \<longleftrightarrow> \<not> (lt a b \<or> lt b a)) \<longrightarrow>
            TopK_Ordered fuel samp lt eq xo k = TopKFunc fuel samp xo k lt \<and>
            floydRivest_Ordered fuel samp lt eq xo left right t =
              floydRivestFunc fuel samp xo left right t lt) \<and>
         TopK fuel samp x k = TopK_Ordered fuel samp (<) (=) x k \<and>
         floydRivest fuel samp x left right t =
           floydRivest_Ordered fuel samp (<) (=) x left right t"
proof (intro conjI impI)
  show "TopK fuel samp x k = TopKFunc fuel samp x k (<)" by (rule TopK_eq_Func)
  show "floydRivest fuel samp x left right t = floydRivestFunc fuel samp x left right t (<)"
    by (rule floydRivest_eq_Func)
  show "TopK fuel samp x k = TopK_Ordered fuel samp (<) (=) x k" by (rule TopK_eq_Ordered)
  show "floydRivest fuel samp x left right t =
           floydRivest_Ordered fuel samp (<) (=) x left right t"
    by (rule floydRivest_eq_Ordered)
next
  assume "NaN \<notin> set xf"
  then have c: "\<forall>a\<in>set xf. \<forall>b\<in>set xf. float64_eq a b \<longleftrightarrow> \<not> (float64_less a b \<or> float64_less b a)"
    by (rule float64_eq_iff)
  show "TopK_Ordered fuel samp float64_less float64_eq xf k = TopKFunc fuel samp xf k float64_less"
    using c by (rule TopK_Ordered_eq_Func)
  show "floydRivest_Ordered fuel samp float64_less float64_eq xf left right t =
              floydRivestFunc fuel samp xf left right t float64_less"
    using c by (rule floydRivest_Ordered_eq_Func)
next
  assume c: "\<forall>a\<in>set xo. \<forall>b\<in>set xo. eq a b \<longleftrightarrow> \<not> (lt a b \<or> lt b a)"
  show "TopK_Ordered fuel samp lt eq xo k = TopKFunc fuel samp xo k lt"
    using c by (rule TopK_Ordered_eq_Func)
  show "floydRivest_Ordered fuel samp lt eq xo left right t =
              floydRivestFunc fuel samp xo left right t lt"
    using c by (rule floydRivest_Ordered_eq_Func)
qed

theorem TopK_refines_TopKFunc_no_NaN_witness:
  "TopK 5 sample_at_k [9, 2, 5, - 1, 4 :: int] 3 = TopKFunc 5 sample_at_k [9, 2, 5, - 1, 4] 3 (<) \<and>
   TopK_Ordered 3 sample_at_k float64_less float64_eq [Num 9, Num 2, Num 5] 2 =
     TopKFunc 3 sample_at_k [Num 9, Num 2, Num 5] 2 float64_less \<and>
   TopKFunc 3 sample_at_k [Num 9, Num 2, Num 5] 2 float64_less = Some (Inr [Num 2, Num 5, Num 9])"
proof -
  note t = TopK_refines_TopKFunc_no_NaN[of 5 sample_at_k "[9, 2, 5, - 1, 4 :: int]" 3]
  note f = TopK_refines_TopKFunc_no_NaN[of 3 sample_at_k _ 2 _ _ _ "[Num 9, Num 2, Num 5]"]
  have n: "NaN \<notin> set [Num 9, Num 2, Num 5]" by simp
  have v: "TopKFunc 3 sample_at_k [Num 9, Num 2, Num 5] 2 float64_less =
      Some (Inr [Num 2, Num 5, Num 9])"
    by code_simp
  from t have "TopK 5 sample_at_k [9, 2, 5, - 1, 4 :: int] 3 =
      TopKFunc 5 sample_at_k [9, 2, 5, - 1, 4] 3 (<)" by blast
  moreover from f n have "TopK_Ordered 3 sample_at_k float64_less float64_eq [Num 9, Num 2, Num 5] 2 =
     TopKFunc 3 sample_at_k [Num 9, Num 2, Num 5] 2 float64_less" by blast
  ultimately show ?thesis using v by blast
qed

text \<open>
  Claim C10 as stated (every slice of a natively ordered element type) fails on a
  \<open>float64\<close> slice with NaN: on \<open>[NaN, NaN, 1]\<close> with \<open>k = 2\<close> the test
  \<open>x[left] == t\<close> of \<open>TopK\<close> is false where neither-less-than is true, and the two end
  with different slices.
\<close>

theorem TopK_refines_TopKFunc_counterexample:
  "TopK_Ordered 3 sample_at_k float64_less float64_eq [NaN, NaN, Num 1] 2 =
     Some (Inr [Num 1, NaN, NaN]) \<and>
   TopKFunc 3 sample_at_k [NaN, NaN, Num 1] 2 float64_less = Some (Inr [NaN, Num 1, NaN])"
  by code_simp

end
